theory Spec2Isabelle
  imports Main "HOL-Library.Word" "HOL-Library.Signed_Division" "HOL-Library.AList"
    "HOL-Library.Multiset"
begin

section \<open>Go values\<close>

text \<open>
  Go's \<^verbatim>\<open>int\<close> (on the 64-bit targets the crawler is built for), \<^verbatim>\<open>int64\<close> and
  \<^verbatim>\<open>time.Duration\<close> (an \<^verbatim>\<open>int64\<close> count of nanoseconds) are 64-bit two's complement
  words: \<open>+\<close> and \<open>*\<close> wrap, comparisons are signed (\<open><s\<close>), and \<^verbatim>\<open>/\<close> truncates
  towards zero and panics on a zero divisor. A \<^verbatim>\<open>time.Time\<close> is an instant on an
  integer clock.
\<close>

type_synonym go_int = "64 word"

type_synonym Duration = "64 word"

type_synonym go_time = int

datatype panic = NilMapWrite | DivideByZero | NilDereference | SendOnClosedChannel |
  NegativeWaitGroupCounter

text \<open>Go's \<^verbatim>\<open>x / y\<close> for \<^verbatim>\<open>y\<close> known to be non-zero: the quotient truncated towards
  zero, wrapped to 64 bits (so \<^verbatim>\<open>MinInt64 / -1 = MinInt64\<close>).\<close>

definition go_quot :: "64 word \<Rightarrow> 64 word \<Rightarrow> 64 word" where
  "go_quot x y = word_of_int (sint x sdiv sint y)"

definition go_div :: "64 word \<Rightarrow> 64 word \<Rightarrow> panic + 64 word" where
  "go_div x y = (if y = 0 then Inl DivideByZero else Inr (go_quot x y))"

text \<open>
  A Go \<^verbatim>\<open>map[K]V\<close> is \<^verbatim>\<open>nil\<close> (\<open>None\<close>) or a finite table, kept as an association
  list whose order stands for the (unspecified) order in which \<^verbatim>\<open>range\<close> visits the
  entries. Reading a missing key, or any key of a \<^verbatim>\<open>nil\<close> map, gives the zero value;
  writing to a \<^verbatim>\<open>nil\<close> map panics.
\<close>

type_synonym count_map = "(go_int \<times> go_int) list"

definition count_of :: "count_map \<Rightarrow> go_int \<Rightarrow> go_int" where
  "count_of m k = (case map_of m k of None \<Rightarrow> 0 | Some v \<Rightarrow> v)"

definition index_map :: "count_map option \<Rightarrow> go_int \<Rightarrow> go_int" where
  "index_map m k = (case m of None \<Rightarrow> 0 | Some al \<Rightarrow> count_of al k)"

definition entries :: "count_map option \<Rightarrow> (go_int \<times> go_int) list" where
  "entries m = (case m of None \<Rightarrow> [] | Some al \<Rightarrow> al)"

section \<open>The data model (crawler package)\<close>

text \<open>Modelled from the spec: the type of a link's \<^verbatim>\<open>Type\<close> field is declared outside
  the two source files, which use its values \<^verbatim>\<open>Hyperlink\<close> and \<^verbatim>\<open>Image\<close>; the spec gives
  \<^verbatim>\<open>type: enum{Hyperlink, Image}\<close>.\<close>

datatype LinkType = Hyperlink | Image_t

text \<open>Modelled from the spec: the \<^verbatim>\<open>Link\<close> struct is declared outside the two source
  files, which read its fields \<^verbatim>\<open>TargetURL\<close>, \<^verbatim>\<open>Type\<close> and \<^verbatim>\<open>IsExternal\<close>; the spec gives
  \<^verbatim>\<open>Link: {targetURL: URL, type: enum{Hyperlink, Image}, isExternal: bool}\<close>. The target
  is kept as the text \<^verbatim>\<open>TargetURL.String()\<close> returns, the only way the crawler reads it.\<close>

record Link =
  TargetURL :: string
  Type :: LinkType
  IsExternal :: bool

text \<open>An \<^verbatim>\<open>*httpstat.Result\<close> is represented by its \<^verbatim>\<open>Total\<close> method: the duration it
  reports for a given end time.\<close>

type_synonym httpstat_Result = "go_time \<Rightarrow> Duration"

record http_Response =
  resp_StatusCode :: go_int
  Body :: string

record HTTPResponse =
  URL :: string
  Response :: "http_Response option"
  Result :: "httpstat_Result option"
  StatusCode :: go_int
  EndTime :: go_time
  Err :: "string option"
  Links :: "Link list"

record HTTPConfig =
  User :: string
  Pass :: string
  Timeout :: Duration
  ParseLinks :: bool
  CustomHeader :: string

record CrawlResult =
  cr_URL :: string
  cr_StatusCode :: go_int
  cr_Time :: Duration
  LinkingURLs :: "string list"

record CrawlStats =
  Total :: go_int
  StatusCodes :: "count_map option"
  Average200Time :: Duration
  Max200Time :: Duration
  Non200Urls :: "CrawlResult list"

record CrawlPageLinksConfig =
  CrawlExternalLinks :: bool
  CrawlHyperlinks :: bool
  CrawlImages :: bool

text \<open>
  \<^verbatim>\<open>ConcurrentHTTPGetter\<close> is an interface: \<^verbatim>\<open>ConcurrentHTTPGet(urls, config,
  maxConcurrent, quit)\<close> returns a channel. A getter is modelled by the finite sequence of
  responses its channel delivers before it is closed, in delivery order, together with
  its effect on the world \<open>'w\<close> it runs in (the network, the scheduler and the \<^verbatim>\<open>quit\<close>
  channel). The responses are proper values, as the non-nil pointers \<^verbatim>\<open>HTTPGet\<close> returns.
\<close>

type_synonym 'w getter = "string list \<Rightarrow> HTTPConfig \<Rightarrow> go_int \<Rightarrow> 'w \<Rightarrow> HTTPResponse list \<times> 'w"

record 'w CrawlConfig =
  Throttle :: go_int
  Host :: string
  HTTP :: HTTPConfig
  Links_cfg :: CrawlPageLinksConfig
  HTTPGetter :: "'w getter"

text \<open>The zero value of \<^verbatim>\<open>CrawlStats\<close> (what \<^verbatim>\<open>var stats CrawlStats\<close> declares).\<close>

definition zero_stats :: CrawlStats where
  "zero_stats = \<lparr>Total = 0, StatusCodes = None, Average200Time = 0, Max200Time = 0,
     Non200Urls = []\<rparr>"

section \<open>MergeCrawlStats\<close>

text \<open>One pass of \<^verbatim>\<open>for key, value := range src { dst[key] = dst[key] + value }\<close>.\<close>

definition add_counts :: "(go_int \<times> go_int) list \<Rightarrow> count_map \<Rightarrow> count_map" where
  "add_counts src dst = fold (\<lambda>(key, v) m. AList.update key (count_of m key + v) m) src dst"

definition MergeCrawlStats :: "CrawlStats \<Rightarrow> CrawlStats \<Rightarrow> panic + CrawlStats" where
  "MergeCrawlStats statsA statsB =
    (let total = Total statsA + Total statsB;
         max200 = (if Max200Time statsB <s Max200Time statsA then Max200Time statsA
                   else Max200Time statsB);
         codesA = (case StatusCodes statsA of None \<Rightarrow> []
                   | Some al \<Rightarrow> add_counts al []);
         codes = (case StatusCodes statsB of None \<Rightarrow> codesA
                  | Some al \<Rightarrow> add_counts al codesA);
         non200 = Non200Urls statsA @ Non200Urls statsB
     in if Average200Time statsA \<noteq> 0 \<or> Average200Time statsB \<noteq> 0 then
          (let total200ns = Average200Time statsA * index_map (StatusCodes statsA) 200 +
                            Average200Time statsB * index_map (StatusCodes statsB) 200
           in case go_div total200ns (count_of codes 200) of
                Inl p \<Rightarrow> Inl p
              | Inr avg \<Rightarrow> Inr \<lparr>Total = total, StatusCodes = Some codes,
                    Average200Time = avg, Max200Time = max200, Non200Urls = non200\<rparr>)
        else Inr \<lparr>Total = total, StatusCodes = Some codes, Average200Time = 0,
                  Max200Time = max200, Non200Urls = non200\<rparr>)"

section \<open>The crawl: populateCrawlStats, crawlUrls, crawlPageLinks, AsyncCrawl\<close>

text \<open>The lists a \<^verbatim>\<open>map[string][]string\<close> holds: the \<^verbatim>\<open>nil\<close> slice for a missing key.\<close>

definition slice_of :: "(string \<times> string list) list \<Rightarrow> string \<Rightarrow> string list" where
  "slice_of m k = (case map_of m k of None \<Rightarrow> [] | Some v \<Rightarrow> v)"

definition populateCrawlStats ::
  "HTTPResponse \<Rightarrow> CrawlStats \<times> Duration \<Rightarrow> panic + CrawlStats \<times> Duration" where
  "populateCrawlStats result st =
    (let stats = fst st; total200Time = snd st;
         stats1 = stats\<lparr>Total := Total stats + 1\<rparr>;
         statusCode = StatusCode result;
         serverTime = (case Result result of None \<Rightarrow> 0 | Some r \<Rightarrow> r (EndTime result))
     in case StatusCodes stats1 of
          None \<Rightarrow> Inl NilMapWrite
        | Some codes \<Rightarrow>
            (let stats2 = stats1\<lparr>StatusCodes :=
                   Some (AList.update statusCode (count_of codes statusCode + 1) codes)\<rparr>
             in if statusCode = 200 then
                  Inr (if Max200Time stats2 <s serverTime
                       then stats2\<lparr>Max200Time := serverTime\<rparr> else stats2,
                       total200Time + serverTime)
                else
                  Inr (stats2\<lparr>Non200Urls := Non200Urls stats2 @
                         [\<lparr>cr_URL = URL result, cr_StatusCode = statusCode,
                           cr_Time = serverTime, LinkingURLs = []\<rparr>]\<rparr>,
                       total200Time)))"

type_synonym result_map = "(string \<times> HTTPResponse) list"

text \<open>The body of \<^verbatim>\<open>for result := range resultsChan\<close> in \<^verbatim>\<open>crawlUrls\<close>, over the
  responses the channel delivers.\<close>

fun consume ::
  "HTTPResponse list \<Rightarrow> result_map \<times> CrawlStats \<times> Duration \<Rightarrow>
     panic + result_map \<times> CrawlStats \<times> Duration" where
  "consume [] acc = Inr acc"
| "consume (result # rest) (results, stats, server200TimeSum) =
     (case populateCrawlStats result (stats, server200TimeSum) of
        Inl p \<Rightarrow> Inl p
      | Inr (stats', total') \<Rightarrow>
          consume rest (AList.update (URL result) result results, stats', total'))"

definition crawlUrls ::
  "string list \<Rightarrow> 'w CrawlConfig \<Rightarrow> 'w \<Rightarrow>
     panic + (result_map \<times> CrawlStats \<times> Duration) \<times> 'w" where
  "crawlUrls urls config w =
    (case HTTPGetter config urls (HTTP config) (Throttle config) w of
       (delivered, w') \<Rightarrow>
         (case consume delivered ([], zero_stats\<lparr>StatusCodes := Some []\<rparr>, 0) of
            Inl p \<Rightarrow> Inl p
          | Inr out \<Rightarrow> Inr (out, w')))"

text \<open>The link filter of \<^verbatim>\<open>crawlPageLinks\<close> (the condition of its first \<^verbatim>\<open>continue\<close>).\<close>

definition skip_link :: "CrawlPageLinksConfig \<Rightarrow> Link \<Rightarrow> bool" where
  "skip_link policy link =
     ((\<not> CrawlExternalLinks policy \<and> IsExternal link) \<or>
      (\<not> CrawlHyperlinks policy \<and> Type link = Hyperlink) \<or>
      (\<not> CrawlImages policy \<and> Type link = Image_t))"

text \<open>The body of the inner loop over \<^verbatim>\<open>result.Links\<close>.\<close>

definition visit_link ::
  "result_map \<Rightarrow> CrawlPageLinksConfig \<Rightarrow> string \<Rightarrow> Link \<Rightarrow>
     (string \<times> string list) list \<Rightarrow> (string \<times> string list) list" where
  "visit_link sourceResults policy src link linkedUrlsSet =
     (if skip_link policy link then linkedUrlsSet
      else if map_of sourceResults (TargetURL link) \<noteq> None then linkedUrlsSet
      else AList.update (TargetURL link) (slice_of linkedUrlsSet (TargetURL link) @ [src])
             linkedUrlsSet)"

text \<open>The two nested loops that build \<^verbatim>\<open>linkedUrlsSet\<close>.\<close>

definition linkedUrlsSet_of ::
  "result_map \<Rightarrow> CrawlPageLinksConfig \<Rightarrow> (string \<times> string list) list" where
  "linkedUrlsSet_of sourceResults policy =
     fold (\<lambda>(key, result) acc.
             fold (visit_link sourceResults policy (URL result)) (Links result) acc)
       sourceResults []"

definition crawlPageLinks ::
  "result_map \<Rightarrow> 'w CrawlConfig \<Rightarrow> 'w \<Rightarrow>
     panic + (result_map \<times> CrawlStats \<times> Duration) \<times> 'w" where
  "crawlPageLinks sourceResults sourceConfig w =
    (let linkedUrlsSet = linkedUrlsSet_of sourceResults (Links_cfg sourceConfig);
         linkedUrls = map fst linkedUrlsSet;
         linksConfig = sourceConfig\<lparr>
           HTTP := (HTTP sourceConfig)\<lparr>ParseLinks := False\<rparr>,
           Links_cfg := \<lparr>CrawlExternalLinks = False, CrawlHyperlinks = False,
                          CrawlImages = False\<rparr>\<rparr>
     in case crawlUrls linkedUrls linksConfig w of
          Inl p \<Rightarrow> Inl p
        | Inr ((linksResults, linksStats, linksServer200TimeSum), w') \<Rightarrow>
            Inr ((linksResults,
                  linksStats\<lparr>Non200Urls :=
                    map (\<lambda>linkResult. linkResult\<lparr>LinkingURLs :=
                           slice_of linkedUrlsSet (cr_URL linkResult)\<rparr>)
                      (Non200Urls linksStats)\<rparr>,
                  linksServer200TimeSum), w'))"

text \<open>The pieces of \<^verbatim>\<open>AsyncCrawl\<close>: the normalised configuration and seed list (lines
  121 to 130), the finalisation of the average (lines 139 to 142) and the classification of
  the outcome (lines 144 to 148). \<^verbatim>\<open>RewriteURLHost\<close> is declared outside the two source
  files and is a parameter.\<close>

definition effective_config :: "'w CrawlConfig \<Rightarrow> 'w CrawlConfig" where
  "effective_config config =
    (let config1 = (if Throttle config \<le>s 0 then config\<lparr>Throttle := 1\<rparr> else config)
     in config1\<lparr>HTTP := (HTTP config1)\<lparr>ParseLinks :=
          CrawlExternalLinks (Links_cfg config1) \<or> CrawlHyperlinks (Links_cfg config1) \<or>
          CrawlImages (Links_cfg config1)\<rparr>\<rparr>)"

definition effective_urls ::
  "(string list \<Rightarrow> string \<Rightarrow> string list) \<Rightarrow> string list \<Rightarrow> 'w CrawlConfig \<Rightarrow> string list" where
  "effective_urls RewriteURLHost urls config =
    (if Host config \<noteq> [] then RewriteURLHost urls (Host config) else urls)"

definition finalize :: "CrawlStats \<Rightarrow> Duration \<Rightarrow> CrawlStats" where
  "finalize stats server200TimeSum =
    (let total200 = index_map (StatusCodes stats) 200
     in if 0 <s total200
        then stats\<lparr>Average200Time := go_quot server200TimeSum total200\<rparr>
        else stats)"

definition classify :: "CrawlStats \<Rightarrow> string option" where
  "classify stats =
    (if Total stats = 0 then Some ''no URL crawled''
     else if Total stats \<noteq> index_map (StatusCodes stats) 200
     then Some ''some URLs had a different status code than 200''
     else None)"

definition AsyncCrawl ::
  "(string list \<Rightarrow> string \<Rightarrow> string list) \<Rightarrow> string list \<Rightarrow> 'w CrawlConfig \<Rightarrow> 'w \<Rightarrow>
     panic + (CrawlStats \<times> string option) \<times> 'w" where
  "AsyncCrawl RewriteURLHost urls0 config0 w =
    (let config = effective_config config0;
         urls = effective_urls RewriteURLHost urls0 config0
     in case crawlUrls urls config w of
          Inl p \<Rightarrow> Inl p
        | Inr ((results, stats, server200TimeSum), w1) \<Rightarrow>
           (case (if ParseLinks (HTTP config) then
                    (case crawlPageLinks results config w1 of
                       Inl p \<Rightarrow> Inl p
                     | Inr ((linksResults, pageLinksStats, linksServer200TimeSum), w2) \<Rightarrow>
                        (case MergeCrawlStats stats pageLinksStats of
                           Inl p \<Rightarrow> Inl p
                         | Inr merged \<Rightarrow>
                             Inr (merged, server200TimeSum + linksServer200TimeSum, w2)))
                  else Inr (stats, server200TimeSum, w1)) of
              Inl p \<Rightarrow> Inl p
            | Inr (stats', total', w') \<Rightarrow>
                (let final = finalize stats' total'
                 in Inr ((final, classify final), w'))))"

section \<open>HTTPGet\<close>

text \<open>
  What \<^verbatim>\<open>HTTPGet\<close> calls outside the two source files, as the environment of one fetch:
  the error of \<^verbatim>\<open>http.NewRequest("GET", url, nil)\<close> (\<open>None\<close> when the request is built);
  the outcome \<^verbatim>\<open>(resp, err)\<close> of \<^verbatim>\<open>client.Do\<close> on the request built for the URL and
  configured by \<^verbatim>\<open>configureRequest\<close>; the clock; the \<^verbatim>\<open>httpstat.Result\<close> the request's
  context fills; the error of \<^verbatim>\<open>url.Parse\<close>; and \<^verbatim>\<open>ExtractLinks\<close> on a body and a base
  URL, which returns links and possibly an error.
\<close>

record http_env =
  NewRequest_err :: "string \<Rightarrow> string option"
  client_Do :: "string \<Rightarrow> HTTPConfig \<Rightarrow> http_Response option \<times> string option"
  time_Now :: go_time
  stat_Result :: httpstat_Result
  url_Parse_err :: "string \<Rightarrow> string option"
  ExtractLinks :: "string \<Rightarrow> string \<Rightarrow> Link list \<times> string option"

definition HTTPGet :: "http_env \<Rightarrow> string \<Rightarrow> HTTPConfig \<Rightarrow> panic + HTTPResponse" where
  "HTTPGet env urlStr config =
    (let response = \<lparr>URL = urlStr, Response = None, Result = None, StatusCode = 0,
                      EndTime = 0, Err = None, Links = []\<rparr>
     in case NewRequest_err env urlStr of
          Some err \<Rightarrow> Inr (response\<lparr>Err := Some err\<rparr>)
        | None \<Rightarrow>
           (case client_Do env urlStr config of
              (resp, err) \<Rightarrow>
               (let response1 = response\<lparr>EndTime := time_Now env, Response := resp,
                                  Result := Some (stat_Result env)\<rparr>;
                    response2 = (case resp of
                                   None \<Rightarrow> response1\<lparr>StatusCode := 0\<rparr>
                                 | Some r \<Rightarrow> response1\<lparr>StatusCode := resp_StatusCode r\<rparr>)
                in case err of
                     Some e \<Rightarrow> Inr (response2\<lparr>Err := Some e\<rparr>)
                   | None \<Rightarrow>
                      if ParseLinks config then
                        (case url_Parse_err env urlStr of
                           Some e \<Rightarrow> Inr response2
                         | None \<Rightarrow>
                            (case resp of
                               None \<Rightarrow> Inl NilDereference
                             | Some r \<Rightarrow>
                                (case ExtractLinks env (Body r) urlStr of
                                   (links, lerr) \<Rightarrow> Inr (response2\<lparr>Links := links\<rparr>))))
                      else Inr response2)))"

section \<open>RunConcurrentGet\<close>

text \<open>
  \<^verbatim>\<open>RunConcurrentGet\<close> runs a dispatcher (the body of the function) and one goroutine
  per dispatched URL. Its state: the URLs the \<^verbatim>\<open>range\<close> loop has not reached, the
  buffered channel \<^verbatim>\<open>clientsReady\<close> (capacity \<^verbatim>\<open>maxConcurrent\<close>, clients named
  \<open>0, \<dots>, maxConcurrent - 1\<close>), the goroutines started so far in dispatch order, the
  \<^verbatim>\<open>WaitGroup\<close> counter, what has been sent on \<^verbatim>\<open>resultChan\<close>, whether \<^verbatim>\<open>resultChan\<close> is
  closed, where the dispatcher stands, whether a receive from \<^verbatim>\<open>quit\<close> can proceed, and a
  runtime panic if one happened.

  A goroutine is \<open>Fetching\<close> until it has sent \<^verbatim>\<open>httpGet(client, url, config)\<close> on
  \<^verbatim>\<open>resultChan\<close>, then \<open>Sent\<close> until its deferred function has put the client back, then
  \<open>Returned\<close> until \<^verbatim>\<open>wg.Done()\<close>, then \<open>Exited\<close>. The fetch function \<^verbatim>\<open>httpGet\<close> is a
  parameter, taken to return a response for every client, URL and configuration.
\<close>

datatype phase = Fetching | Sent | Returned | Exited

record worker =
  client :: nat
  wurl :: string
  phase :: phase

datatype dispatcher_pc = Selecting | Waiting | Finished

record pool =
  urls_left :: "string list"
  clientsReady :: "nat list"
  workers :: "worker list"
  wg :: nat
  resultChan :: "HTTPResponse list"
  chan_closed :: bool
  dispatcher :: dispatcher_pc
  quit_ready :: bool
  panicked :: "panic option"

text \<open>The state after the clients have been created and the deferred function registered
  (lines 156 to 167).\<close>

definition init_pool :: "nat \<Rightarrow> string list \<Rightarrow> bool \<Rightarrow> pool" where
  "init_pool maxConcurrent urls q =
     \<lparr>urls_left = urls, clientsReady = [0..<maxConcurrent], workers = [], wg = 0,
      resultChan = [], chan_closed = False, dispatcher = Selecting, quit_ready = q,
      panicked = None\<rparr>"

text \<open>
  The atomic steps, chosen by the scheduler and the environment:
  \<^item> \<open>Dispatch\<close>: the \<^verbatim>\<open>select\<close> takes \<^verbatim>\<open>client := <-clientsReady\<close>, then \<^verbatim>\<open>wg.Add(1)\<close> and
    \<^verbatim>\<open>go func\<close> (lines 174 to 184);
  \<^item> \<open>Take_quit\<close>: the \<^verbatim>\<open>select\<close> takes \<^verbatim>\<open><-quit\<close> and the function returns into its
    deferred \<^verbatim>\<open>wg.Wait()\<close> (lines 171 to 173);
  \<^item> \<open>Loop_end\<close>: the \<^verbatim>\<open>range\<close> loop is over and the function returns likewise;
  \<^item> \<open>Emit k\<close>: goroutine \<open>k\<close> sends its result (line 183), a panic if the channel is
    closed;
  \<^item> \<open>Put_back k\<close>: goroutine \<open>k\<close> sends its client to \<^verbatim>\<open>clientsReady\<close> (line 179), which
    needs room in the buffer;
  \<^item> \<open>Done k\<close>: goroutine \<open>k\<close> calls \<^verbatim>\<open>wg.Done()\<close> (line 180), a panic if the counter
    is zero;
  \<^item> \<open>Close\<close>: \<^verbatim>\<open>wg.Wait()\<close> returns, the counter being zero, and \<^verbatim>\<open>resultChan\<close> is closed
    (lines 165 and 166);
  \<^item> \<open>Signal\<close>: the environment makes \<^verbatim>\<open>quit\<close> ready (it closes the channel).
  A \<^verbatim>\<open>select\<close> with both communications ready may take either; the sends on
  \<^verbatim>\<open>resultChan\<close> never wait (\<^verbatim>\<open>ConcurrentHTTPGet\<close> gives it a buffer of \<^verbatim>\<open>len(urls)\<close>).
\<close>

datatype event = Dispatch | Take_quit | Loop_end | Emit nat | Put_back nat | Done nat |
  Close | Signal

definition set_phase :: "nat \<Rightarrow> phase \<Rightarrow> pool \<Rightarrow> pool" where
  "set_phase k ph s = s\<lparr>workers := (workers s)[k := (workers s ! k)\<lparr>phase := ph\<rparr>]\<rparr>"

definition in_phase :: "nat \<Rightarrow> phase \<Rightarrow> pool \<Rightarrow> bool" where
  "in_phase k ph s = (k < length (workers s) \<and> phase (workers s ! k) = ph)"

fun step ::
  "nat \<Rightarrow> (nat \<Rightarrow> string \<Rightarrow> HTTPConfig \<Rightarrow> HTTPResponse) \<Rightarrow> HTTPConfig \<Rightarrow> event \<Rightarrow> pool \<Rightarrow>
     pool option" where
  "step maxConcurrent httpGet config Dispatch s =
     (if panicked s = None \<and> dispatcher s = Selecting then
        (case (urls_left s, clientsReady s) of
           (url # rest, c # cs) \<Rightarrow>
             Some (s\<lparr>urls_left := rest, clientsReady := cs, wg := wg s + 1,
                     workers := workers s @ [\<lparr>client = c, wurl = url, phase = Fetching\<rparr>]\<rparr>)
         | _ \<Rightarrow> None)
      else None)"
| "step maxConcurrent httpGet config Take_quit s =
     (if panicked s = None \<and> dispatcher s = Selecting \<and> urls_left s \<noteq> [] \<and> quit_ready s
      then Some (s\<lparr>dispatcher := Waiting\<rparr>) else None)"
| "step maxConcurrent httpGet config Loop_end s =
     (if panicked s = None \<and> dispatcher s = Selecting \<and> urls_left s = []
      then Some (s\<lparr>dispatcher := Waiting\<rparr>) else None)"
| "step maxConcurrent httpGet config (Emit k) s =
     (if panicked s = None \<and> in_phase k Fetching s then
        (if chan_closed s then Some (s\<lparr>panicked := Some SendOnClosedChannel\<rparr>)
         else Some (set_phase k Sent
                (s\<lparr>resultChan := resultChan s @
                     [httpGet (client (workers s ! k)) (wurl (workers s ! k)) config]\<rparr>)))
      else None)"
| "step maxConcurrent httpGet config (Put_back k) s =
     (if panicked s = None \<and> in_phase k Sent s \<and> length (clientsReady s) < maxConcurrent
      then Some (set_phase k Returned
             (s\<lparr>clientsReady := clientsReady s @ [client (workers s ! k)]\<rparr>))
      else None)"
| "step maxConcurrent httpGet config (Done k) s =
     (if panicked s = None \<and> in_phase k Returned s then
        (if wg s = 0 then Some (s\<lparr>panicked := Some NegativeWaitGroupCounter\<rparr>)
         else Some (set_phase k Exited (s\<lparr>wg := wg s - 1\<rparr>)))
      else None)"
| "step maxConcurrent httpGet config Close s =
     (if panicked s = None \<and> dispatcher s = Waiting \<and> wg s = 0
      then Some (s\<lparr>chan_closed := True, dispatcher := Finished\<rparr>) else None)"
| "step maxConcurrent httpGet config Signal s =
     (if panicked s = None \<and> \<not> quit_ready s then Some (s\<lparr>quit_ready := True\<rparr>) else None)"

text \<open>A schedule is a list of steps; it runs as long as each step is enabled.\<close>

fun run ::
  "nat \<Rightarrow> (nat \<Rightarrow> string \<Rightarrow> HTTPConfig \<Rightarrow> HTTPResponse) \<Rightarrow> HTTPConfig \<Rightarrow> event list \<Rightarrow> pool \<Rightarrow>
     pool option" where
  "run maxConcurrent httpGet config [] s = Some s"
| "run maxConcurrent httpGet config (e # es) s =
     (case step maxConcurrent httpGet config e s of
        None \<Rightarrow> None
      | Some s' \<Rightarrow> run maxConcurrent httpGet config es s')"

section \<open>Notions used in the statements\<close>

text \<open>What the two \<^verbatim>\<open>range\<close> loops leave in the merged histogram, and the amount
  a list of entries holds under one key.\<close>

definition tally :: "(go_int \<times> go_int) list \<Rightarrow> go_int \<Rightarrow> go_int" where
  "tally src k = sum_list (map snd (filter (\<lambda>e. fst e = k) src))"

definition merged_codes :: "CrawlStats \<Rightarrow> CrawlStats \<Rightarrow> count_map" where
  "merged_codes a b = add_counts (entries (StatusCodes b)) (add_counts (entries (StatusCodes a)) [])"

text \<open>Well-formed histograms (a Go map holds each key once) and the range of
  \<^verbatim>\<open>int64\<close>.\<close>

definition wf_counts :: "count_map option \<Rightarrow> bool" where
  "wf_counts m = distinct (map fst (entries m))"

definition in_int64 :: "int \<Rightarrow> bool" where
  "in_int64 x = (- (2 ^ 63) \<le> x \<and> x < 2 ^ 63)"

text \<open>Agreement of two statistics on total, maximal 200-latency, histogram (as a map)
  and average 200-latency.\<close>

definition agree :: "CrawlStats \<Rightarrow> CrawlStats \<Rightarrow> bool" where
  "agree s t = (Total s = Total t \<and> Max200Time s = Max200Time t \<and>
     map_of (entries (StatusCodes s)) = map_of (entries (StatusCodes t)) \<and>
     Average200Time s = Average200Time t)"

text \<open>The invariant of C3: the total equals the sum of the counts in the histogram.\<close>

definition total_ok :: "CrawlStats \<Rightarrow> bool" where
  "total_ok s = (Total s = sum_list (map snd (entries (StatusCodes s))))"

text \<open>What holds of the accumulator of a phase: the histogram is allocated and holds each
  key once, the total is the sum of its counts, the average is untouched and the maximum
  is not negative.\<close>

definition phase_inv :: "CrawlStats \<Rightarrow> bool" where
  "phase_inv s = (StatusCodes s \<noteq> None \<and> wf_counts (StatusCodes s) \<and> total_ok s \<and>
     Average200Time s = 0 \<and> 0 \<le>s Max200Time s)"

definition fresh_stats :: CrawlStats where
  "fresh_stats = zero_stats\<lparr>StatusCodes := Some []\<rparr>"

text \<open>The server time \<^verbatim>\<open>populateCrawlStats\<close> reads off a response, and the sum of the
  server times of the 200-responses of a sequence.\<close>

definition serverTime_of :: "HTTPResponse \<Rightarrow> Duration" where
  "serverTime_of result = (case Result result of None \<Rightarrow> 0 | Some r \<Rightarrow> r (EndTime result))"

definition sum200 :: "HTTPResponse list \<Rightarrow> Duration" where
  "sum200 rs = sum_list (map serverTime_of (filter (\<lambda>r. StatusCode r = 200) rs))"

text \<open>One execution of the assignment
  \<^verbatim>\<open>linkedUrlsSet[target] = append(linkedUrlsSet[target], source)\<close>.\<close>

definition add_pair ::
  "string \<times> string \<Rightarrow> (string \<times> string list) list \<Rightarrow> (string \<times> string list) list" where
  "add_pair p m = AList.update (fst p) (slice_of m (fst p) @ [snd p]) m"

text \<open>The links of the phase-1 results that reach that assignment, as pairs of target and
  source URL in visiting order, and the sources that reference one target.\<close>

definition kept_links :: "result_map \<Rightarrow> CrawlPageLinksConfig \<Rightarrow> HTTPResponse \<Rightarrow> Link list" where
  "kept_links sourceResults policy result =
     filter (\<lambda>link. \<not> skip_link policy link \<and> map_of sourceResults (TargetURL link) = None)
       (Links result)"

definition candidates ::
  "result_map \<Rightarrow> CrawlPageLinksConfig \<Rightarrow> result_map \<Rightarrow> (string \<times> string) list" where
  "candidates sourceResults policy rs =
     concat (map (\<lambda>(key, result).
        map (\<lambda>link. (TargetURL link, URL result)) (kept_links sourceResults policy result)) rs)"

definition referrers :: "result_map \<Rightarrow> CrawlPageLinksConfig \<Rightarrow> string \<Rightarrow> string list" where
  "referrers sourceResults policy t =
     map snd (filter (\<lambda>p. fst p = t) (candidates sourceResults policy sourceResults))"

text \<open>The goroutines that hold a client, the result of a goroutine, and a bound on the
  steps a pool can still take.\<close>

definition holding :: "worker \<Rightarrow> bool" where
  "holding w = (phase w = Fetching \<or> phase w = Sent)"

definition result_of ::
  "(nat \<Rightarrow> string \<Rightarrow> HTTPConfig \<Rightarrow> HTTPResponse) \<Rightarrow> HTTPConfig \<Rightarrow> worker \<Rightarrow> HTTPResponse" where
  "result_of httpGet config w = httpGet (client w) (wurl w) config"

fun phase_steps :: "phase \<Rightarrow> nat" where
  "phase_steps Fetching = 3"
| "phase_steps Sent = 2"
| "phase_steps Returned = 1"
| "phase_steps Exited = 0"

fun dispatcher_steps :: "dispatcher_pc \<Rightarrow> nat" where
  "dispatcher_steps Selecting = 2"
| "dispatcher_steps Waiting = 1"
| "dispatcher_steps Finished = 0"

definition steps_left :: "pool \<Rightarrow> nat" where
  "steps_left s = 4 * length (urls_left s) + sum_list (map (\<lambda>w. phase_steps (phase w)) (workers s)) +
     dispatcher_steps (dispatcher s) + (if quit_ready s then 0 else 1)"

text \<open>The invariant of the pool: the clients held by goroutines and the clients in
  \<^verbatim>\<open>clientsReady\<close> are together the clients of the pool, each once; the \<^verbatim>\<open>WaitGroup\<close>
  counter counts the goroutines that have not exited; the URLs dispatched and the URLs left
  are the input list; the results sent are those of the goroutines past their fetch; the
  channel is closed exactly when the dispatcher has finished, and then the counter is
  zero; nothing has panicked.\<close>

definition pool_inv ::
  "nat \<Rightarrow> (nat \<Rightarrow> string \<Rightarrow> HTTPConfig \<Rightarrow> HTTPResponse) \<Rightarrow> HTTPConfig \<Rightarrow> string list \<Rightarrow> pool \<Rightarrow>
     bool" where
  "pool_inv n httpGet config urls s =
    (mset (map client (filter holding (workers s))) + mset (clientsReady s) = mset [0..<n] \<and>
     wg s = length (filter (\<lambda>w. phase w \<noteq> Exited) (workers s)) \<and>
     map wurl (workers s) @ urls_left s = urls \<and>
     mset (resultChan s) =
       mset (map (result_of httpGet config) (filter (\<lambda>w. phase w \<noteq> Fetching) (workers s))) \<and>
     chan_closed s = (dispatcher s = Finished) \<and>
     (if dispatcher s = Finished then wg s = 0 else True) \<and>
     panicked s = None)"

section \<open>Sample inputs\<close>

text \<open>Sample statistics used to evaluate the merge.\<close>

definition stats_2ok :: CrawlStats where
  "stats_2ok = \<lparr>Total = 2, StatusCodes = Some [(200, 2)], Average200Time = 5, Max200Time = 9,
     Non200Urls = []\<rparr>"

definition stats_mixed :: CrawlStats where
  "stats_mixed = \<lparr>Total = 2, StatusCodes = Some [(404, 1), (200, 1)], Average200Time = 8,
     Max200Time = 8,
     Non200Urls = [\<lparr>cr_URL = ''http://a/x'', cr_StatusCode = 404, cr_Time = 3, LinkingURLs = []\<rparr>]\<rparr>"

definition stats_avg_only :: CrawlStats where
  "stats_avg_only = \<lparr>Total = 0, StatusCodes = None, Average200Time = 5, Max200Time = 0,
     Non200Urls = []\<rparr>"

definition stats_no200 :: CrawlStats where
  "stats_no200 = \<lparr>Total = 1, StatusCodes = Some [(404, 1)], Average200Time = 7, Max200Time = 0,
     Non200Urls = [\<lparr>cr_URL = ''http://a/x'', cr_StatusCode = 404, cr_Time = 3, LinkingURLs = []\<rparr>]\<rparr>"

definition stats_negative_max :: CrawlStats where
  "stats_negative_max = \<lparr>Total = 0, StatusCodes = None, Average200Time = 0, Max200Time = - 1,
     Non200Urls = []\<rparr>"

definition stats_huge_average :: CrawlStats where
  "stats_huge_average = \<lparr>Total = 2, StatusCodes = Some [(200, 2)],
     Average200Time = 4611686018427387904, Max200Time = 4611686018427387904, Non200Urls = []\<rparr>"

text \<open>A sample world: a getter that answers from a fixed site and counts its invocations.
  Page \<^verbatim>\<open>a\<close> links to \<^verbatim>\<open>c\<close>, \<^verbatim>\<open>b\<close> and an external image \<^verbatim>\<open>d\<close>; page \<^verbatim>\<open>b\<close> links to
  \<^verbatim>\<open>c\<close>; every other page is missing.\<close>

definition sample_response :: "string \<Rightarrow> go_int \<Rightarrow> Duration \<Rightarrow> Link list \<Rightarrow> HTTPResponse" where
  "sample_response u code t ls =
     \<lparr>URL = u, Response = Some \<lparr>resp_StatusCode = code, Body = []\<rparr>,
      Result = Some (\<lambda>e. t), StatusCode = code, EndTime = 0, Err = None, Links = ls\<rparr>"

definition sample_page :: "string \<Rightarrow> HTTPResponse" where
  "sample_page u =
     (if u = ''a'' then sample_response u 200 10
        [\<lparr>TargetURL = ''c'', Type = Hyperlink, IsExternal = False\<rparr>,
         \<lparr>TargetURL = ''b'', Type = Hyperlink, IsExternal = False\<rparr>,
         \<lparr>TargetURL = ''d'', Type = Image_t, IsExternal = True\<rparr>]
      else if u = ''b'' then sample_response u 200 20
        [\<lparr>TargetURL = ''c'', Type = Hyperlink, IsExternal = False\<rparr>]
      else sample_response u 404 7 [])"

definition sample_getter :: "nat getter" where
  "sample_getter urls httpConfig maxConcurrent calls = (map sample_page urls, Suc calls)"

definition sample_config :: "bool \<Rightarrow> nat CrawlConfig" where
  "sample_config follow =
     \<lparr>Throttle = 0, Host = [],
      HTTP = \<lparr>User = [], Pass = [], Timeout = 0, ParseLinks = False, CustomHeader = []\<rparr>,
      Links_cfg = \<lparr>CrawlExternalLinks = False, CrawlHyperlinks = follow, CrawlImages = False\<rparr>,
      HTTPGetter = sample_getter\<rparr>"

definition no_rewrite :: "string list \<Rightarrow> string \<Rightarrow> string list" where
  "no_rewrite urls host = urls"

definition sample_results :: result_map where
  "sample_results = [(''a'', sample_page ''a''), (''b'', sample_page ''b'')]"

text \<open>A sample environment: the text \<^verbatim>\<open>%zz\<close> is no URL, the host \<^verbatim>\<open>down\<close> refuses
  connections, the host \<^verbatim>\<open>loop\<close> redirects for ever, so that \<^verbatim>\<open>client.Do\<close> gives up with the
  last response and an error, and every other host answers 503.\<close>

definition sample_env :: http_env where
  "sample_env = \<lparr>NewRequest_err = (\<lambda>u. if u = ''%zz'' then Some ''invalid URL escape'' else None),
     client_Do = (\<lambda>u c.
        if u = ''http://down/'' then (None, Some ''connection refused'')
        else if u = ''http://loop/''
        then (Some \<lparr>resp_StatusCode = 302, Body = []\<rparr>, Some ''stopped after 10 redirects'')
        else (Some \<lparr>resp_StatusCode = 503, Body = ''busy''\<rparr>, None)),
     time_Now = 42, stat_Result = (\<lambda>e. 7),
     url_Parse_err = (\<lambda>u. if u = ''%zz'' then Some ''invalid URL escape'' else None),
     ExtractLinks = (\<lambda>body base. ([], None))\<rparr>"

definition sample_http_config :: HTTPConfig where
  "sample_http_config = \<lparr>User = [], Pass = [], Timeout = 0, ParseLinks = True,
     CustomHeader = []\<rparr>"

definition sample_get :: "nat \<Rightarrow> string \<Rightarrow> HTTPConfig \<Rightarrow> HTTPResponse" where
  "sample_get c u config = sample_page u"

definition sample_schedule :: "event list" where
  "sample_schedule = [Dispatch, Signal, Emit 0, Put_back 0, Dispatch, Take_quit, Emit 1,
     Done 0, Put_back 1, Done 1, Close]"

definition sample_sent :: pool where
  "sample_sent = \<lparr>urls_left = [''b'', ''c''], clientsReady = [],
     workers = [\<lparr>client = 0, wurl = ''a'', phase = Sent\<rparr>], wg = 1,
     resultChan = [sample_page ''a''], chan_closed = False, dispatcher = Selecting,
     quit_ready = True, panicked = None\<rparr>"

definition sample_final :: pool where
  "sample_final = \<lparr>urls_left = [''c''], clientsReady = [0],
     workers = [\<lparr>client = 0, wurl = ''a'', phase = Exited\<rparr>,
                \<lparr>client = 0, wurl = ''b'', phase = Exited\<rparr>], wg = 0,
     resultChan = [sample_page ''a'', sample_page ''b''], chan_closed = True,
     dispatcher = Finished, quit_ready = True, panicked = None\<rparr>"

section \<open>Properties of the merge\<close>

lemma tally_simps [simp]:
  "tally [] k = 0"
  "tally ((k', v) # src) k = (if k' = k then v + tally src k else tally src k)"
  by (simp_all add: tally_def)

lemma count_of_update [simp]:
  "count_of (AList.update k v m) k' = (if k' = k then v else count_of m k')"
  by (simp add: count_of_def update_conv')

lemma count_of_add_counts:
  "count_of (add_counts src dst) k = count_of dst k + tally src k"
  unfolding add_counts_def
  by (induction src arbitrary: dst) (auto simp: algebra_simps)

lemma keys_update [simp]:
  "fst ` set (AList.update k v m) = insert k (fst ` set m)"
  by (simp add: dom_update)

lemma keys_add_counts:
  "fst ` set (add_counts src dst) = fst ` set src \<union> fst ` set dst"
  unfolding add_counts_def
proof (induction src arbitrary: dst)
  case Nil
  show ?case by simp
next
  case (Cons e src)
  obtain k v where e: "e = (k, v)" by (cases e)
  show ?case by (simp add: e Cons.IH Un_commute insert_commute)
qed

lemma map_of_count_of:
  "map_of m k = (if k \<in> fst ` set m then Some (count_of m k) else None)"
  by (auto simp: count_of_def map_of_eq_None_iff split: option.splits)

lemma tally_absent: "k \<notin> fst ` set src \<Longrightarrow> tally src k = 0"
  by (induction src) auto

lemma count_of_absent: "k \<notin> fst ` set m \<Longrightarrow> count_of m k = 0"
  by (auto simp: count_of_def map_of_eq_None_iff [symmetric] split: option.splits)

lemma count_of_Cons [simp]:
  "count_of ((k', v) # m) k = (if k = k' then v else count_of m k)"
  by (simp add: count_of_def)

lemma tally_distinct:
  "distinct (map fst src) \<Longrightarrow> tally src k = count_of src k"
  by (induction src) (auto simp: tally_absent count_of_absent)

lemma distinct_add_counts:
  "distinct (map fst dst) \<Longrightarrow> distinct (map fst (add_counts src dst))"
  unfolding add_counts_def
  by (induction src arbitrary: dst) (auto simp: distinct_update)

lemma sum_update:
  "distinct (map fst m) \<Longrightarrow>
     sum_list (map snd (AList.update k v m)) = sum_list (map snd m) - count_of m k + v"
  by (induction m) (auto simp: count_of_def map_of_eq_None_iff image_iff split: option.splits)

lemma sum_add_counts:
  "distinct (map fst dst) \<Longrightarrow>
     sum_list (map snd (add_counts src dst)) = sum_list (map snd dst) + sum_list (map snd src)"
  unfolding add_counts_def
  by (induction src arbitrary: dst) (auto simp: distinct_update sum_update)

lemma map_of_add_counts:
  "map_of (add_counts src dst) k =
     (if k \<in> fst ` set src \<union> fst ` set dst then Some (count_of dst k + tally src k) else None)"
  by (simp add: map_of_count_of [of "add_counts src dst"] keys_add_counts count_of_add_counts)


lemma add_counts_Nil [simp]: "add_counts [] dst = dst"
  by (simp add: add_counts_def)

lemma MergeCrawlStats_unfold:
  "MergeCrawlStats a b =
     (if Average200Time a \<noteq> 0 \<or> Average200Time b \<noteq> 0 then
        (case go_div (Average200Time a * index_map (StatusCodes a) 200 +
                      Average200Time b * index_map (StatusCodes b) 200)
               (count_of (merged_codes a b) 200) of
           Inl p \<Rightarrow> Inl p
         | Inr avg \<Rightarrow> Inr \<lparr>Total = Total a + Total b, StatusCodes = Some (merged_codes a b),
              Average200Time = avg,
              Max200Time = (if Max200Time b <s Max200Time a then Max200Time a else Max200Time b),
              Non200Urls = Non200Urls a @ Non200Urls b\<rparr>)
      else Inr \<lparr>Total = Total a + Total b, StatusCodes = Some (merged_codes a b),
              Average200Time = 0,
              Max200Time = (if Max200Time b <s Max200Time a then Max200Time a else Max200Time b),
              Non200Urls = Non200Urls a @ Non200Urls b\<rparr>)"
proof -
  have eq: "(case StatusCodes b of
               None \<Rightarrow> (case StatusCodes a of None \<Rightarrow> [] | Some al \<Rightarrow> add_counts al [])
             | Some al \<Rightarrow> add_counts al
                 (case StatusCodes a of None \<Rightarrow> [] | Some al \<Rightarrow> add_counts al [])) =
            merged_codes a b"
    by (simp add: merged_codes_def entries_def split: option.splits)
  show ?thesis
    unfolding MergeCrawlStats_def Let_def eq by simp
qed

section \<open>The weighted average (C1)\<close>

lemma sint_word_of_int64:
  "in_int64 x \<Longrightarrow> sint (word_of_int x :: 64 word) = x"
  unfolding in_int64_def
  by (simp add: sint_sbintrunc' signed_take_bit_int_eq_self)

lemma tally_entries:
  "wf_counts m \<Longrightarrow> tally (entries m) k = index_map m k"
  by (cases m) (simp_all add: wf_counts_def entries_def index_map_def tally_distinct)

lemma count_of_Nil [simp]: "count_of [] k = 0"
  by (simp add: count_of_def)

lemma count_of_merged_codes:
  "wf_counts (StatusCodes a) \<Longrightarrow> wf_counts (StatusCodes b) \<Longrightarrow>
     count_of (merged_codes a b) k = index_map (StatusCodes a) k + index_map (StatusCodes b) k"
  by (simp add: merged_codes_def count_of_add_counts tally_entries)

lemma sint_go_quot:
  "in_int64 (sint x sdiv sint y) \<Longrightarrow> sint (go_quot x y) = sint x sdiv sint y"
  by (simp add: go_quot_def sint_word_of_int64)

lemma sint_weighted_sum:
  fixes x y n m :: "64 word"
  assumes "in_int64 (sint x * sint n + sint y * sint m)"
  shows "sint (x * n + y * m) = sint x * sint n + sint y * sint m"
proof -
  have "x * n + y * m = word_of_int (sint x * sint n + sint y * sint m)"
    by simp
  then show ?thesis
    using assms by (simp only: sint_word_of_int64)
qed

lemma sint_count_sum:
  fixes n m :: "64 word"
  assumes "in_int64 (sint n + sint m)"
  shows "sint (n + m) = sint n + sint m"
proof -
  have "n + m = word_of_int (sint n + sint m)"
    by simp
  then show ?thesis
    using assms by (simp only: sint_word_of_int64)
qed

text \<open>
  C1 (amended). For all statistics \<open>a\<close> and \<open>b\<close> whose histograms hold each key once, if
  both averages are zero or the merged 200-count \<open>a.StatusCodes[200] + b.StatusCodes[200]\<close>
  is not zero, \<^verbatim>\<open>MergeCrawlStats\<close> returns, and its \<^verbatim>\<open>Average200Time\<close> is the weighted
  average \<open>(a.avg * a200 + b.avg * b200) / (a200 + b200)\<close> with the quotient truncated
  towards zero, exact in integer nanoseconds whenever sum of products, sum of counts and
  quotient fit \<^verbatim>\<open>int64\<close>; when both 200-counts are zero the result is the zero duration.
  The guard in the code tests the averages, not the counts.
\<close>

theorem MergeCrawlStats_weighted_average:
  fixes a b :: CrawlStats
  defines "x \<equiv> Average200Time a" and "y \<equiv> Average200Time b"
    and "n \<equiv> index_map (StatusCodes a) 200" and "m \<equiv> index_map (StatusCodes b) 200"
  assumes wf: "wf_counts (StatusCodes a)" "wf_counts (StatusCodes b)"
    and guard: "(x = 0 \<and> y = 0) \<or> n + m \<noteq> 0"
  shows "\<exists>s. MergeCrawlStats a b = Inr s \<and>
           Average200Time s =
             (if x = 0 \<and> y = 0 then 0 else go_quot (x * n + y * m) (n + m)) \<and>
           (in_int64 (sint x * sint n + sint y * sint m) \<and> in_int64 (sint n + sint m) \<and>
            in_int64 ((sint x * sint n + sint y * sint m) sdiv (sint n + sint m)) \<longrightarrow>
              sint (Average200Time s) =
                (sint x * sint n + sint y * sint m) sdiv (sint n + sint m)) \<and>
           (n = 0 \<and> m = 0 \<longrightarrow> Average200Time s = 0)"
proof (cases "x = 0 \<and> y = 0")
  case True
  then show ?thesis
    by (simp add: MergeCrawlStats_unfold x_def y_def)
next
  case False
  with guard have nz: "n + m \<noteq> 0" by simp
  have c: "count_of (merged_codes a b) 200 = n + m"
    using wf by (simp add: count_of_merged_codes n_def m_def)
  have q: "in_int64 (sint x * sint n + sint y * sint m) \<and> in_int64 (sint n + sint m) \<and>
      in_int64 ((sint x * sint n + sint y * sint m) sdiv (sint n + sint m)) \<longrightarrow>
      sint (go_quot (x * n + y * m) (n + m)) =
        (sint x * sint n + sint y * sint m) sdiv (sint n + sint m)"
    by (simp add: sint_go_quot sint_weighted_sum sint_count_sum)
  have z: "\<not> (n = 0 \<and> m = 0)"
    using nz by auto
  have r: "MergeCrawlStats a b = Inr \<lparr>Total = Total a + Total b,
      StatusCodes = Some (merged_codes a b), Average200Time = go_quot (x * n + y * m) (n + m),
      Max200Time = (if Max200Time b <s Max200Time a then Max200Time a else Max200Time b),
      Non200Urls = Non200Urls a @ Non200Urls b\<rparr>"
    using False nz c by (simp add: MergeCrawlStats_unfold go_div_def x_def y_def n_def m_def)
  from False q z show ?thesis
    unfolding r by auto
qed

theorem MergeCrawlStats_weighted_average_witness:
  "(\<exists>s. MergeCrawlStats stats_2ok stats_mixed = Inr s \<and> sint (Average200Time s) = 6) \<and>
   (\<exists>s. MergeCrawlStats zero_stats zero_stats = Inr s \<and> Average200Time s = 0)"
proof -
  have e: "index_map (StatusCodes stats_2ok) 200 = 2" "index_map (StatusCodes stats_mixed) 200 = 1"
    "Average200Time stats_2ok = 5" "Average200Time stats_mixed = 8"
    "index_map (StatusCodes zero_stats) 200 = 0" "Average200Time zero_stats = 0"
    by (simp_all add: stats_2ok_def stats_mixed_def zero_stats_def index_map_def)
  have w: "wf_counts (StatusCodes stats_2ok)" "wf_counts (StatusCodes stats_mixed)"
    "wf_counts (StatusCodes zero_stats)"
    by (simp_all add: stats_2ok_def stats_mixed_def zero_stats_def wf_counts_def entries_def)
  have q: "(18::int) sdiv 3 = 6"
    by (simp add: signed_divide_int_def)
  have g: "(Average200Time stats_2ok = 0 \<and> Average200Time stats_mixed = 0) \<or>
      index_map (StatusCodes stats_2ok) 200 + index_map (StatusCodes stats_mixed) 200 \<noteq> 0"
    by (simp add: e)
  have r: "in_int64 (sint (Average200Time stats_2ok) * sint (index_map (StatusCodes stats_2ok) 200) +
        sint (Average200Time stats_mixed) * sint (index_map (StatusCodes stats_mixed) 200)) \<and>
      in_int64 (sint (index_map (StatusCodes stats_2ok) 200) +
        sint (index_map (StatusCodes stats_mixed) 200)) \<and>
      in_int64 ((sint (Average200Time stats_2ok) * sint (index_map (StatusCodes stats_2ok) 200) +
        sint (Average200Time stats_mixed) * sint (index_map (StatusCodes stats_mixed) 200)) sdiv
        (sint (index_map (StatusCodes stats_2ok) 200) +
         sint (index_map (StatusCodes stats_mixed) 200)))"
    by (simp add: e q in_int64_def)
  from MergeCrawlStats_weighted_average [OF w(1) w(2) g] r
  have 1: "\<exists>s. MergeCrawlStats stats_2ok stats_mixed = Inr s \<and> sint (Average200Time s) = 6"
    by (auto simp add: e q)
  have g0: "(Average200Time zero_stats = 0 \<and> Average200Time zero_stats = 0) \<or>
      index_map (StatusCodes zero_stats) 200 + index_map (StatusCodes zero_stats) 200 \<noteq> 0"
    by (simp add: e)
  from MergeCrawlStats_weighted_average [OF w(3) w(3) g0]
  have 2: "\<exists>s. MergeCrawlStats zero_stats zero_stats = Inr s \<and> Average200Time s = 0"
    by (auto simp add: e)
  from 1 2 show ?thesis by (rule conjI)
qed

text \<open>As stated, C1 fails: with a non-zero average and no 200-response on either side
  the division runs with a zero divisor; and with an average of \<open>2^62\<close> nanoseconds over two
  responses the product wraps, so that the result is \<open>- 2^62\<close> and not the weighted average
  \<open>2^62\<close>.\<close>

theorem MergeCrawlStats_zero_count_counterexample:
  "index_map (StatusCodes stats_avg_only) 200 = 0 \<and> index_map (StatusCodes zero_stats) 200 = 0 \<and>
   MergeCrawlStats stats_avg_only zero_stats = Inl DivideByZero \<and>
   Average200Time stats_huge_average = 4611686018427387904 \<and>
   map_sum id Average200Time (MergeCrawlStats stats_huge_average zero_stats) =
     Inr (- 4611686018427387904)"
  by code_simp

section \<open>Commutativity and identity (C2)\<close>

lemma map_of_merged_codes:
  "map_of (merged_codes a b) k =
     (if k \<in> fst ` set (entries (StatusCodes a)) \<union> fst ` set (entries (StatusCodes b))
      then Some (tally (entries (StatusCodes a)) k + tally (entries (StatusCodes b)) k)
      else None)"
  by (simp add: merged_codes_def map_of_add_counts keys_add_counts count_of_add_counts)

lemma map_of_merged_codes_commute:
  "map_of (merged_codes a b) = map_of (merged_codes b a)"
  by (rule ext) (simp add: map_of_merged_codes Un_commute add.commute)

lemma count_of_merged_codes_commute:
  "count_of (merged_codes a b) k = count_of (merged_codes b a) k"
  by (simp add: count_of_def map_of_merged_codes_commute)

lemma signed_max_commute:
  fixes x y :: "64 word"
  shows "(if y <s x then x else y) = (if x <s y then y else x)"
  by (auto simp: word_sless_alt dest: signed_word_eqI)

lemma MergeCrawlStats_commute:
  "rel_sum (=) agree (MergeCrawlStats a b) (MergeCrawlStats b a)"
proof -
  have c: "count_of (merged_codes a b) 200 = count_of (merged_codes b a) 200"
    by (rule count_of_merged_codes_commute)
  have m: "map_of (merged_codes a b) = map_of (merged_codes b a)"
    by (rule map_of_merged_codes_commute)
  have s: "Average200Time a * index_map (StatusCodes a) 200 +
           Average200Time b * index_map (StatusCodes b) 200 =
           Average200Time b * index_map (StatusCodes b) 200 +
           Average200Time a * index_map (StatusCodes a) 200"
    by simp
  show ?thesis
    unfolding MergeCrawlStats_unfold [of a b] MergeCrawlStats_unfold [of b a] c s
    using m signed_max_commute [of "Max200Time b" "Max200Time a"]
    by (auto simp: agree_def entries_def go_div_def add.commute)
qed

lemma sdiv_mult_cancel:
  fixes x y :: int
  assumes "y \<noteq> 0"
  shows "(x * y) sdiv y = x"
proof -
  have "\<bar>x * y\<bar> div \<bar>y\<bar> = \<bar>x\<bar>"
    using assms by (simp add: abs_mult)
  moreover have "sgn (x * y) * sgn y = sgn x"
    using assms by (simp add: sgn_mult mult.assoc flip: power2_eq_square) (simp add: sgn_if)
  ultimately show ?thesis
    by (simp add: signed_divide_int_def mult_sgn_abs)
qed

lemma go_quot_mult_cancel:
  assumes "n \<noteq> 0" "in_int64 (sint x * sint n)"
  shows "go_quot (x * n) n = x"
proof -
  have "x * n = word_of_int (sint x * sint n)" by simp
  then have "sint (x * n) = sint x * sint n"
    using assms(2) by (simp only: sint_word_of_int64)
  moreover have "sint n \<noteq> 0"
    using assms(1) by (metis signed_eq_0_iff)
  ultimately show ?thesis
    by (simp add: go_quot_def sdiv_mult_cancel)
qed

lemma map_of_add_counts_fresh:
  "distinct (map fst src) \<Longrightarrow> map_of (add_counts src []) = map_of src"
  by (rule ext) (simp add: map_of_add_counts tally_distinct map_of_count_of [of src])

lemma signed_max_zero:
  fixes x :: "64 word"
  shows "0 \<le>s x \<Longrightarrow> \<not> 0 <s x \<Longrightarrow> x = 0"
  using signed_word_eqI [of x 0] by (auto simp: word_sless_alt word_sle_eq)

lemma MergeCrawlStats_zero_right:
  assumes wf: "wf_counts (StatusCodes a)"
    and mx: "0 \<le>s Max200Time a"
    and av: "Average200Time a = 0 \<or>
        (index_map (StatusCodes a) 200 \<noteq> 0 \<and>
         in_int64 (sint (Average200Time a) * sint (index_map (StatusCodes a) 200)))"
  shows "\<exists>s. MergeCrawlStats a zero_stats = Inr s \<and> agree s a \<and> Non200Urls s = Non200Urls a"
proof -
  have z: "StatusCodes zero_stats = None" "Average200Time zero_stats = 0" "Total zero_stats = 0"
    "Max200Time zero_stats = 0" "Non200Urls zero_stats = []"
    by (simp_all add: zero_stats_def)
  have mc: "merged_codes a zero_stats = add_counts (entries (StatusCodes a)) []"
    by (simp add: merged_codes_def z entries_def)
  have m: "map_of (merged_codes a zero_stats) = map_of (entries (StatusCodes a))"
    using wf by (simp add: mc wf_counts_def map_of_add_counts_fresh)
  have c: "count_of (merged_codes a zero_stats) 200 = index_map (StatusCodes a) 200"
    using wf by (simp add: mc count_of_add_counts tally_entries)
  have mx': "\<not> 0 <s Max200Time a \<Longrightarrow> Max200Time a = 0"
    using mx by (rule signed_max_zero)
  show ?thesis
  proof (cases "Average200Time a = 0")
    case True
    then show ?thesis
      by (simp add: MergeCrawlStats_unfold z agree_def m mx' entries_def [of "Some _"])
  next
    case False
    with av have n: "index_map (StatusCodes a) 200 \<noteq> 0"
      and r: "in_int64 (sint (Average200Time a) * sint (index_map (StatusCodes a) 200))"
      by simp_all
    have q: "go_quot (Average200Time a * index_map (StatusCodes a) 200)
               (index_map (StatusCodes a) 200) = Average200Time a"
      using n r by (rule go_quot_mult_cancel)
    from False show ?thesis
      by (simp add: MergeCrawlStats_unfold z agree_def m mx' c go_div_def n q index_map_def [of None]
          entries_def [of "Some _"])
  qed
qed

text \<open>
  C2 (amended). \<^verbatim>\<open>MergeCrawlStats\<close> is commutative: for all \<open>a\<close> and \<open>b\<close>, \<open>merge(a, b)\<close>
  and \<open>merge(b, a)\<close> panic alike or agree on total, maximal 200-latency, histogram and
  average. The zero statistics are a right identity on those fields and on the non-200 list
  for every \<open>a\<close> whose histogram holds each key once, whose \<^verbatim>\<open>Max200Time\<close> is not negative
  and whose \<^verbatim>\<open>Average200Time\<close> is zero or comes with a non-zero 200-count such that
  average times count fits \<^verbatim>\<open>int64\<close>.
\<close>

theorem MergeCrawlStats_commutative_identity:
  "rel_sum (=) agree (MergeCrawlStats a b) (MergeCrawlStats b a) \<and>
   (wf_counts (StatusCodes a) \<and> 0 \<le>s Max200Time a \<and>
    (Average200Time a = 0 \<or>
       (index_map (StatusCodes a) 200 \<noteq> 0 \<and>
        in_int64 (sint (Average200Time a) * sint (index_map (StatusCodes a) 200)))) \<longrightarrow>
    (\<exists>s. MergeCrawlStats a zero_stats = Inr s \<and> agree s a \<and> Non200Urls s = Non200Urls a))"
  using MergeCrawlStats_commute [of a b] MergeCrawlStats_zero_right [of a] by blast

theorem MergeCrawlStats_commutative_identity_witness:
  "rel_sum (=) agree (MergeCrawlStats stats_mixed stats_2ok) (MergeCrawlStats stats_2ok stats_mixed) \<and>
   (\<exists>s. MergeCrawlStats stats_mixed zero_stats = Inr s \<and> agree s stats_mixed \<and>
        Non200Urls s = Non200Urls stats_mixed)"
proof -
  have "wf_counts (StatusCodes stats_mixed)"
    by (simp add: stats_mixed_def wf_counts_def entries_def)
  moreover have "0 \<le>s Max200Time stats_mixed"
    by (simp add: stats_mixed_def word_sle_eq)
  moreover have "index_map (StatusCodes stats_mixed) 200 \<noteq> 0 \<and>
      in_int64 (sint (Average200Time stats_mixed) * sint (index_map (StatusCodes stats_mixed) 200))"
    by (simp add: stats_mixed_def index_map_def in_int64_def)
  ultimately show ?thesis
    using MergeCrawlStats_commutative_identity [of stats_mixed stats_2ok] by blast
qed

text \<open>As stated, the identity law of C2 fails: statistics with an average but no
  200-response are not returned unchanged, the merge with the zero statistics divides by
  zero; a negative maximum is replaced by zero; and an average whose product with the
  200-count leaves \<^verbatim>\<open>int64\<close> is not recovered.\<close>

theorem MergeCrawlStats_identity_counterexample:
  "MergeCrawlStats stats_no200 zero_stats = Inl DivideByZero \<and>
   Max200Time stats_negative_max = - 1 \<and>
   map_sum id Max200Time (MergeCrawlStats stats_negative_max zero_stats) = Inr 0 \<and>
   Average200Time stats_huge_average = 4611686018427387904 \<and>
   map_sum id Average200Time (MergeCrawlStats stats_huge_average zero_stats) =
     Inr (- 4611686018427387904)"
  by code_simp

section \<open>The accumulator of a phase\<close>

lemma populateCrawlStats_Some:
  assumes "StatusCodes s = Some codes"
  shows "\<exists>s' t'. populateCrawlStats r (s, t) = Inr (s', t') \<and>
           Total s' = Total s + 1 \<and>
           StatusCodes s' =
             Some (AList.update (StatusCode r) (count_of codes (StatusCode r) + 1) codes) \<and>
           Average200Time s' = Average200Time s \<and>
           (Max200Time s' = Max200Time s \<or> Max200Time s <s Max200Time s')"
  using assms by (simp add: populateCrawlStats_def Let_def)

lemma populateCrawlStats_None:
  "StatusCodes s = None \<Longrightarrow> populateCrawlStats r (s, t) = Inl NilMapWrite"
  by (simp add: populateCrawlStats_def Let_def)

lemma total_ok_step:
  assumes "distinct (map fst codes)" "Total s = sum_list (map snd codes)"
  shows "Total s + 1 =
     sum_list (map snd (AList.update k (count_of codes k + 1) codes))"
  using assms by (simp add: sum_update)

lemma populateCrawlStats_inv:
  assumes "phase_inv s"
  shows "\<exists>s' t'. populateCrawlStats r (s, t) = Inr (s', t') \<and> phase_inv s'"
proof -
  from assms obtain codes where c: "StatusCodes s = Some codes"
    by (auto simp: phase_inv_def)
  from assms c have d: "distinct (map fst codes)" and t: "Total s = sum_list (map snd codes)"
    and a: "Average200Time s = 0" and m: "0 \<le>s Max200Time s"
    by (simp_all add: phase_inv_def wf_counts_def total_ok_def entries_def)
  from populateCrawlStats_Some [OF c, of r t] obtain s' t' where
    p: "populateCrawlStats r (s, t) = Inr (s', t')" and
    1: "Total s' = Total s + 1" and
    2: "StatusCodes s' = Some (AList.update (StatusCode r) (count_of codes (StatusCode r) + 1) codes)" and
    3: "Average200Time s' = Average200Time s" and
    4: "Max200Time s' = Max200Time s \<or> Max200Time s <s Max200Time s'"
    by blast
  have "0 \<le>s Max200Time s'"
    using m 4 by (auto simp: word_sle_eq word_sless_alt)
  moreover have "total_ok s'"
    using total_ok_step [OF d t] by (simp add: total_ok_def 1 2 entries_def)
  moreover have "wf_counts (StatusCodes s')"
    using d by (simp add: wf_counts_def 2 entries_def distinct_update)
  ultimately have "phase_inv s'"
    by (simp add: phase_inv_def 2 3 a)
  with p show ?thesis by blast
qed

lemma consume_inv:
  "phase_inv s \<Longrightarrow>
     \<exists>res' s' t'. consume rs (res, s, t) = Inr (res', s', t') \<and> phase_inv s'"
proof (induction rs arbitrary: res s t)
  case Nil
  then show ?case by simp
next
  case (Cons r rs)
  from populateCrawlStats_inv [OF Cons.prems, of r t] obtain s1 t1 where
    p: "populateCrawlStats r (s, t) = Inr (s1, t1)" and i: "phase_inv s1"
    by blast
  from Cons.IH [OF i] show ?case
    by (simp add: p)
qed

lemma phase_inv_fresh: "phase_inv fresh_stats"
  by (simp add: phase_inv_def fresh_stats_def zero_stats_def wf_counts_def total_ok_def entries_def
      word_sle_eq)

lemma crawlUrls_inv:
  "\<exists>res s t w'. crawlUrls urls config w = Inr ((res, s, t), w') \<and> phase_inv s \<and>
      w' = snd (HTTPGetter config urls (HTTP config) (Throttle config) w)"
proof -
  obtain d w1 where g: "HTTPGetter config urls (HTTP config) (Throttle config) w = (d, w1)"
    by (cases "HTTPGetter config urls (HTTP config) (Throttle config) w")
  from consume_inv [OF phase_inv_fresh, of d "[]" 0] obtain res s t where
    "consume d ([], fresh_stats, 0) = Inr (res, s, t)" "phase_inv s"
    by blast
  then show ?thesis
    by (simp add: crawlUrls_def g fresh_stats_def)
qed

lemma crawlPageLinks_inv:
  "\<exists>res s t w'. crawlPageLinks sourceResults config w = Inr ((res, s, t), w') \<and> phase_inv s"
proof -
  let ?set = "linkedUrlsSet_of sourceResults (Links_cfg config)"
  let ?cfg = "config\<lparr>HTTP := (HTTP config)\<lparr>ParseLinks := False\<rparr>,
           Links_cfg := \<lparr>CrawlExternalLinks = False, CrawlHyperlinks = False,
                          CrawlImages = False\<rparr>\<rparr>"
  from crawlUrls_inv [of "map fst ?set" ?cfg w] obtain res s t w' where
    c: "crawlUrls (map fst ?set) ?cfg w = Inr ((res, s, t), w')" and i: "phase_inv s"
    by blast
  have "phase_inv (s\<lparr>Non200Urls := map (\<lambda>linkResult. linkResult\<lparr>LinkingURLs :=
                           slice_of ?set (cr_URL linkResult)\<rparr>) (Non200Urls s)\<rparr>)"
    using i by (simp add: phase_inv_def total_ok_def)
  then show ?thesis
    by (simp add: crawlPageLinks_def Let_def c)
qed

section \<open>The shape of a crawl\<close>

lemma sum_merged_codes:
  "sum_list (map snd (merged_codes a b)) =
     sum_list (map snd (entries (StatusCodes a))) + sum_list (map snd (entries (StatusCodes b)))"
proof -
  have "distinct (map fst (add_counts (entries (StatusCodes a)) []))"
    by (rule distinct_add_counts) simp
  then show ?thesis
    by (simp add: merged_codes_def sum_add_counts)
qed

lemma distinct_merged_codes: "distinct (map fst (merged_codes a b))"
  unfolding merged_codes_def
  by (intro distinct_add_counts) simp

lemma MergeCrawlStats_StatusCodes:
  "MergeCrawlStats a b = Inr m \<Longrightarrow>
     StatusCodes m = Some (merged_codes a b) \<and> Total m = Total a + Total b \<and>
     Non200Urls m = Non200Urls a @ Non200Urls b"
  by (auto simp: MergeCrawlStats_unfold split: if_splits sum.splits)

lemma MergeCrawlStats_total_ok:
  assumes "total_ok a" "total_ok b" "MergeCrawlStats a b = Inr m"
  shows "total_ok m \<and> wf_counts (StatusCodes m)"
  using assms MergeCrawlStats_StatusCodes [OF assms(3)]
  by (simp add: total_ok_def wf_counts_def entries_def [of "Some _"] sum_merged_codes
      distinct_merged_codes)

lemma MergeCrawlStats_phase:
  assumes a: "phase_inv a" and b: "phase_inv b"
  shows "\<exists>m. MergeCrawlStats a b = Inr m \<and> phase_inv m \<and>
           index_map (StatusCodes m) 200 =
             index_map (StatusCodes a) 200 + index_map (StatusCodes b) 200"
proof -
  from a b have z: "Average200Time a = 0" "Average200Time b = 0"
    by (simp_all add: phase_inv_def)
  define m where "m = \<lparr>Total = Total a + Total b, StatusCodes = Some (merged_codes a b),
      Average200Time = 0,
      Max200Time = (if Max200Time b <s Max200Time a then Max200Time a else Max200Time b),
      Non200Urls = Non200Urls a @ Non200Urls b\<rparr>"
  have r: "MergeCrawlStats a b = Inr m"
    by (simp add: MergeCrawlStats_unfold z m_def)
  from a b have t: "total_ok a" "total_ok b" and w: "wf_counts (StatusCodes a)" "wf_counts (StatusCodes b)"
    and x: "0 \<le>s Max200Time a" "0 \<le>s Max200Time b"
    by (simp_all add: phase_inv_def)
  have "0 \<le>s Max200Time m"
    using x by (simp add: m_def)
  moreover have "Average200Time m = 0" "StatusCodes m \<noteq> None"
    by (simp_all add: m_def)
  ultimately have "phase_inv m"
    using MergeCrawlStats_total_ok [OF t r] by (simp add: phase_inv_def)
  moreover have "index_map (StatusCodes m) 200 =
      index_map (StatusCodes a) 200 + index_map (StatusCodes b) 200"
    using count_of_merged_codes [OF w, of 200] by (simp add: m_def index_map_def)
  ultimately show ?thesis
    using r by blast
qed

text \<open>The shape of every run of \<^verbatim>\<open>AsyncCrawl\<close>: without link following, one phase and
  its finalisation; with link following, two phases, their merge and the finalisation.\<close>

lemma AsyncCrawl_one_phase:
  assumes "\<not> ParseLinks (HTTP (effective_config config0))"
    and "crawlUrls (effective_urls rw urls0 config0) (effective_config config0) w =
           Inr ((res, s, t), w1)"
  shows "AsyncCrawl rw urls0 config0 w = Inr ((finalize s t, classify (finalize s t)), w1)"
  using assms by (simp add: AsyncCrawl_def Let_def)

lemma AsyncCrawl_two_phases:
  assumes "ParseLinks (HTTP (effective_config config0))"
    and "crawlUrls (effective_urls rw urls0 config0) (effective_config config0) w =
           Inr ((res, s, t), w1)"
    and "crawlPageLinks res (effective_config config0) w1 = Inr ((res2, s2, t2), w2)"
    and "MergeCrawlStats s s2 = Inr m"
  shows "AsyncCrawl rw urls0 config0 w =
           Inr ((finalize m (t + t2), classify (finalize m (t + t2))), w2)"
  using assms by (simp add: AsyncCrawl_def Let_def)

lemma finalize_fields [simp]:
  "Total (finalize s t) = Total s" "StatusCodes (finalize s t) = StatusCodes s"
  "Max200Time (finalize s t) = Max200Time s" "Non200Urls (finalize s t) = Non200Urls s"
  by (simp_all add: finalize_def Let_def)

lemma AsyncCrawl_returns:
  "\<exists>s t w'. AsyncCrawl rw urls0 config0 w = Inr ((finalize s t, classify (finalize s t)), w') \<and>
      phase_inv s"
proof -
  let ?cfg = "effective_config config0" and ?urls = "effective_urls rw urls0 config0"
  from crawlUrls_inv [of ?urls ?cfg w] obtain res s t w1 where
    1: "crawlUrls ?urls ?cfg w = Inr ((res, s, t), w1)" and i1: "phase_inv s"
    by blast
  show ?thesis
  proof (cases "ParseLinks (HTTP ?cfg)")
    case False
    from AsyncCrawl_one_phase [OF False 1] i1 show ?thesis by blast
  next
    case True
    from crawlPageLinks_inv [of res ?cfg w1] obtain res2 s2 t2 w2 where
      2: "crawlPageLinks res ?cfg w1 = Inr ((res2, s2, t2), w2)" and i2: "phase_inv s2"
      by blast
    from MergeCrawlStats_phase [OF i1 i2] obtain m where
      3: "MergeCrawlStats s s2 = Inr m" and i3: "phase_inv m"
      by blast
    from AsyncCrawl_two_phases [OF True 1 2 3] i3 show ?thesis by blast
  qed
qed

section \<open>A sample crawl\<close>

lemma sample_crawl_follow:
  "AsyncCrawl no_rewrite [''a'', ''b''] (sample_config True) 0 =
     Inr ((\<lparr>Total = 3, StatusCodes = Some [(200, 2), (404, 1)], Average200Time = 15,
            Max200Time = 20,
            Non200Urls = [\<lparr>cr_URL = ''c'', cr_StatusCode = 404, cr_Time = 7,
                            LinkingURLs = [''a'', ''b'']\<rparr>]\<rparr>,
           Some ''some URLs had a different status code than 200''), 2)"
  by code_simp

lemma sample_crawl_plain:
  "AsyncCrawl no_rewrite [''a'', ''b''] (sample_config False) 0 =
     Inr ((\<lparr>Total = 2, StatusCodes = Some [(200, 2)], Average200Time = 15,
            Max200Time = 20, Non200Urls = []\<rparr>, None), 1)"
  by code_simp


section \<open>Total and histogram (C3)\<close>

lemma index_map_update:
  "index_map (Some (AList.update k v codes)) k' = (if k' = k then v else index_map (Some codes) k')"
  by (simp add: index_map_def)

lemma populateCrawlStats_total_ok:
  assumes n: "StatusCodes s \<noteq> None" and w: "wf_counts (StatusCodes s)" and t: "total_ok s"
  shows "\<exists>s' t'. populateCrawlStats r (s, t0) = Inr (s', t') \<and> total_ok s' \<and>
           wf_counts (StatusCodes s') \<and> Total s' = Total s + 1 \<and>
           (\<forall>k. index_map (StatusCodes s') k =
                  index_map (StatusCodes s) k + (if k = StatusCode r then 1 else 0))"
proof -
  from n obtain codes where c: "StatusCodes s = Some codes" by auto
  from w t c have d: "distinct (map fst codes)" and e: "Total s = sum_list (map snd codes)"
    by (simp_all add: wf_counts_def total_ok_def entries_def)
  from populateCrawlStats_Some [OF c, of r t0] obtain s' t' where
    p: "populateCrawlStats r (s, t0) = Inr (s', t')" and
    1: "Total s' = Total s + 1" and
    2: "StatusCodes s' = Some (AList.update (StatusCode r) (count_of codes (StatusCode r) + 1) codes)"
    by blast
  have "total_ok s'"
    using total_ok_step [OF d e] by (simp add: total_ok_def 1 2 entries_def)
  moreover have "wf_counts (StatusCodes s')"
    using d by (simp add: wf_counts_def 2 entries_def distinct_update)
  moreover have "\<forall>k. index_map (StatusCodes s') k =
      index_map (StatusCodes s) k + (if k = StatusCode r then 1 else 0)"
    by (simp add: 2 c index_map_update) (simp add: index_map_def)
  ultimately show ?thesis
    using p 1 by blast
qed

lemma MergeCrawlStats_counts:
  assumes "MergeCrawlStats a b = Inr m" "wf_counts (StatusCodes a)" "wf_counts (StatusCodes b)"
  shows "index_map (StatusCodes m) k = index_map (StatusCodes a) k + index_map (StatusCodes b) k"
  using MergeCrawlStats_StatusCodes [OF assms(1)] count_of_merged_codes [OF assms(2,3), of k]
  by (simp add: index_map_def)

lemma total_ok_finalize: "total_ok (finalize s t) = total_ok s"
  by (simp add: total_ok_def)

lemma AsyncCrawl_total_ok:
  "\<exists>final err w'. AsyncCrawl rw urls config w = Inr ((final, err), w') \<and> total_ok final"
proof -
  from AsyncCrawl_returns [of rw urls config w] obtain s t w' where
    "AsyncCrawl rw urls config w = Inr ((finalize s t, classify (finalize s t)), w')" "phase_inv s"
    by blast
  then show ?thesis
    by (auto simp: total_ok_finalize phase_inv_def)
qed

text \<open>
  C3. The total equals the sum of the counts in the histogram: a record step
  (\<^verbatim>\<open>populateCrawlStats\<close> on an allocated histogram) adds one to the total and one to the
  entry of the response's status code and keeps the equation; \<^verbatim>\<open>MergeCrawlStats\<close> adds
  the totals and adds the histograms key by key and keeps it; and the statistics \<^verbatim>\<open>AsyncCrawl\<close> returns satisfy it, for every getter, seed list
  and configuration.
\<close>

theorem total_equals_histogram_sum:
  "(StatusCodes s \<noteq> None \<and> wf_counts (StatusCodes s) \<and> total_ok s \<longrightarrow>
      (\<exists>s' t'. populateCrawlStats r (s, t0) = Inr (s', t') \<and> total_ok s' \<and>
         wf_counts (StatusCodes s') \<and> Total s' = Total s + 1 \<and>
         (\<forall>k. index_map (StatusCodes s') k =
                index_map (StatusCodes s) k + (if k = StatusCode r then 1 else 0)))) \<and>
   (total_ok a \<and> total_ok b \<longrightarrow>
      (\<forall>m. MergeCrawlStats a b = Inr m \<longrightarrow>
         total_ok m \<and> Total m = Total a + Total b \<and>
         (wf_counts (StatusCodes a) \<and> wf_counts (StatusCodes b) \<longrightarrow>
            (\<forall>k. index_map (StatusCodes m) k =
                   index_map (StatusCodes a) k + index_map (StatusCodes b) k)))) \<and>
   (\<exists>final err w'. AsyncCrawl rw urls config w = Inr ((final, err), w') \<and> total_ok final)"
proof (intro conjI)
  show "StatusCodes s \<noteq> None \<and> wf_counts (StatusCodes s) \<and> total_ok s \<longrightarrow>
      (\<exists>s' t'. populateCrawlStats r (s, t0) = Inr (s', t') \<and> total_ok s' \<and>
         wf_counts (StatusCodes s') \<and> Total s' = Total s + 1 \<and>
         (\<forall>k. index_map (StatusCodes s') k =
                index_map (StatusCodes s) k + (if k = StatusCode r then 1 else 0)))"
    using populateCrawlStats_total_ok [of s r t0] by blast
next
  show "total_ok a \<and> total_ok b \<longrightarrow>
      (\<forall>m. MergeCrawlStats a b = Inr m \<longrightarrow>
         total_ok m \<and> Total m = Total a + Total b \<and>
         (wf_counts (StatusCodes a) \<and> wf_counts (StatusCodes b) \<longrightarrow>
            (\<forall>k. index_map (StatusCodes m) k =
                   index_map (StatusCodes a) k + index_map (StatusCodes b) k)))"
    using MergeCrawlStats_total_ok [of a b] MergeCrawlStats_StatusCodes [of a b]
      MergeCrawlStats_counts [of a b]
    by blast
next
  show "\<exists>final err w'. AsyncCrawl rw urls config w = Inr ((final, err), w') \<and> total_ok final"
    by (rule AsyncCrawl_total_ok)
qed

lemma sample_merge:
  "MergeCrawlStats stats_2ok stats_mixed =
     Inr \<lparr>Total = 4, StatusCodes = Some [(200, 3), (404, 1)], Average200Time = 6,
       Max200Time = 9,
       Non200Urls = [\<lparr>cr_URL = ''http://a/x'', cr_StatusCode = 404, cr_Time = 3,
                       LinkingURLs = []\<rparr>]\<rparr>"
  by code_simp

theorem total_equals_histogram_sum_witness:
  "(\<exists>s' t'. populateCrawlStats (sample_page ''c'') (fresh_stats, 0) = Inr (s', t') \<and>
       total_ok s' \<and> Total s' = 1 \<and> index_map (StatusCodes s') 404 = 1) \<and>
   (\<exists>m. MergeCrawlStats stats_2ok stats_mixed = Inr m \<and> total_ok m \<and> Total m = 4 \<and>
       index_map (StatusCodes m) 200 = 3) \<and>
   (\<exists>final err w'. AsyncCrawl no_rewrite [''a'', ''b''] (sample_config True) (0::nat) =
       Inr ((final, err), w') \<and> total_ok final \<and> Total final = 3)"
proof -
  note T = total_equals_histogram_sum [of fresh_stats "sample_page ''c''" 0 stats_2ok stats_mixed
      no_rewrite "[''a'', ''b'']" "sample_config True" "0::nat"]
  have f: "StatusCodes fresh_stats \<noteq> None \<and> wf_counts (StatusCodes fresh_stats) \<and>
      total_ok fresh_stats"
    using phase_inv_fresh by (simp add: phase_inv_def)
  have c: "StatusCode (sample_page ''c'') = 404" "Total fresh_stats = 0"
    "index_map (StatusCodes fresh_stats) 404 = 0"
    by (simp_all add: sample_page_def sample_response_def fresh_stats_def zero_stats_def
        index_map_def)
  have t: "total_ok stats_2ok \<and> total_ok stats_mixed"
    by (simp add: total_ok_def stats_2ok_def stats_mixed_def entries_def)
  from T [THEN conjunct1, rule_format, OF f] obtain s' t' where
    p: "populateCrawlStats (sample_page ''c'') (fresh_stats, 0) = Inr (s', t')" "total_ok s'"
      "Total s' = Total fresh_stats + 1"
      "index_map (StatusCodes s') 404 = index_map (StatusCodes fresh_stats) 404 +
         (if 404 = StatusCode (sample_page ''c'') then 1 else 0)"
    by blast
  have 1: "\<exists>s' t'. populateCrawlStats (sample_page ''c'') (fresh_stats, 0) = Inr (s', t') \<and>
       total_ok s' \<and> Total s' = 1 \<and> index_map (StatusCodes s') 404 = 1"
    using p by (simp add: c)
  from T [THEN conjunct2, THEN conjunct1, rule_format, OF t sample_merge]
  have m: "total_ok
      \<lparr>Total = 4, StatusCodes = Some [(200, 3), (404, 1)], Average200Time = 6,
       Max200Time = 9,
       Non200Urls = [\<lparr>cr_URL = ''http://a/x'', cr_StatusCode = 404, cr_Time = 3,
                       LinkingURLs = []\<rparr>]\<rparr>"
    by blast
  have 2: "\<exists>m. MergeCrawlStats stats_2ok stats_mixed = Inr m \<and> total_ok m \<and> Total m = 4 \<and>
       index_map (StatusCodes m) 200 = 3"
    using m by (simp add: sample_merge index_map_def)
  from T [THEN conjunct2, THEN conjunct2]
  have 3: "\<exists>final err w'. AsyncCrawl no_rewrite [''a'', ''b''] (sample_config True) (0::nat) =
       Inr ((final, err), w') \<and> total_ok final \<and> Total final = 3"
    by (simp add: sample_crawl_follow)
  from 1 2 3 show ?thesis by (intro conjI)
qed

section \<open>The normalised configuration and the empty seed list\<close>

lemma effective_config_fields [simp]:
  "HTTPGetter (effective_config config) = HTTPGetter config"
  "Links_cfg (effective_config config) = Links_cfg config"
  "Host (effective_config config) = Host config"
  "ParseLinks (HTTP (effective_config config)) =
     (CrawlExternalLinks (Links_cfg config) \<or> CrawlHyperlinks (Links_cfg config) \<or>
      CrawlImages (Links_cfg config))"
  "Throttle (effective_config config) = (if Throttle config \<le>s 0 then 1 else Throttle config)"
  by (simp_all add: effective_config_def Let_def)


lemma finalize_fresh [simp]: "finalize fresh_stats t = fresh_stats"
  by (simp add: finalize_def fresh_stats_def zero_stats_def index_map_def)

lemma classify_fresh [simp]: "classify fresh_stats = Some ''no URL crawled''"
  by (simp add: classify_def fresh_stats_def zero_stats_def)


section \<open>Link following off (C9)\<close>

lemma finalize_eq:
  "Average200Time s = 0 \<Longrightarrow>
     finalize s t = s\<lparr>Average200Time :=
       (if 0 <s index_map (StatusCodes s) 200 then go_quot t (index_map (StatusCodes s) 200)
        else 0)\<rparr>"
  by (simp add: finalize_def Let_def)

text \<open>
  C9 (amended). When the three link-policy flags are false, \<^verbatim>\<open>AsyncCrawl\<close> runs phase 1
  only: the getter is invoked once (the world it returns is the one that invocation
  leaves), \<^verbatim>\<open>crawlPageLinks\<close> and \<^verbatim>\<open>MergeCrawlStats\<close> are not run, and the statistics
  returned are the phase-1 statistics with \<^verbatim>\<open>Average200Time\<close>, which phase 1 leaves zero,
  set by the finalisation to the phase-1 200-latency sum divided by the 200-count when
  that count is positive.
\<close>

theorem link_following_off_single_phase:
  assumes "\<not> CrawlExternalLinks (Links_cfg config)" "\<not> CrawlHyperlinks (Links_cfg config)"
    "\<not> CrawlImages (Links_cfg config)"
  shows "\<exists>res s t w1.
      crawlUrls (effective_urls rw urls config) (effective_config config) w =
        Inr ((res, s, t), w1) \<and>
      w1 = snd (HTTPGetter config (effective_urls rw urls config)
                  (HTTP (effective_config config)) (Throttle (effective_config config)) w) \<and>
      Average200Time s = 0 \<and>
      (\<exists>err. AsyncCrawl rw urls config w =
         Inr ((s\<lparr>Average200Time :=
                  (if 0 <s index_map (StatusCodes s) 200
                   then go_quot t (index_map (StatusCodes s) 200) else 0)\<rparr>, err), w1))"
proof -
  let ?cfg = "effective_config config" and ?urls = "effective_urls rw urls config"
  from crawlUrls_inv [of ?urls ?cfg w] obtain res s t w1 where
    1: "crawlUrls ?urls ?cfg w = Inr ((res, s, t), w1)" and i: "phase_inv s"
    and w: "w1 = snd (HTTPGetter ?cfg ?urls (HTTP ?cfg) (Throttle ?cfg) w)"
    by blast
  have off: "\<not> ParseLinks (HTTP ?cfg)"
    using assms by simp
  from i have a: "Average200Time s = 0"
    by (simp add: phase_inv_def)
  from AsyncCrawl_one_phase [OF off 1] have
    "AsyncCrawl rw urls config w =
       Inr ((s\<lparr>Average200Time :=
                  (if 0 <s index_map (StatusCodes s) 200
                   then go_quot t (index_map (StatusCodes s) 200) else 0)\<rparr>,
             classify (finalize s t)), w1)"
    by (simp only: finalize_eq [OF a])
  with 1 w a show ?thesis
    by (simp only: effective_config_fields) blast
qed

theorem link_following_off_single_phase_witness:
  "\<exists>res s t. crawlUrls (effective_urls no_rewrite [''a'', ''b''] (sample_config False))
        (effective_config (sample_config False)) (0::nat) = Inr ((res, s, t), 1) \<and>
      (\<exists>err. AsyncCrawl no_rewrite [''a'', ''b''] (sample_config False) 0 =
         Inr ((s\<lparr>Average200Time := 15\<rparr>, err), 1))"
proof -
  have h: "\<not> CrawlExternalLinks (Links_cfg (sample_config False))"
    "\<not> CrawlHyperlinks (Links_cfg (sample_config False))"
    "\<not> CrawlImages (Links_cfg (sample_config False))"
    by (simp_all add: sample_config_def)
  from link_following_off_single_phase [OF h, of no_rewrite "[''a'', ''b'']" "0::nat"]
  obtain res s t w1 err where
    1: "crawlUrls (effective_urls no_rewrite [''a'', ''b''] (sample_config False))
          (effective_config (sample_config False)) 0 = Inr ((res, s, t), w1)" and
    2: "AsyncCrawl no_rewrite [''a'', ''b''] (sample_config False) 0 =
         Inr ((s\<lparr>Average200Time :=
                  (if 0 <s index_map (StatusCodes s) 200
                   then go_quot t (index_map (StatusCodes s) 200) else 0)\<rparr>, err), w1)"
    by blast
  define x where "x = (if 0 <s index_map (StatusCodes s) 200
                   then go_quot t (index_map (StatusCodes s) 200) else 0)"
  from 2 have 3: "AsyncCrawl no_rewrite [''a'', ''b''] (sample_config False) 0 =
         Inr ((s\<lparr>Average200Time := x\<rparr>, err), w1)"
    by (simp only: x_def)
  have "Average200Time (s\<lparr>Average200Time := x\<rparr>) = 15 \<and> w1 = 1"
    using trans [OF 3 [symmetric] sample_crawl_plain] by auto
  then have "x = 15" "w1 = 1"
    by simp_all
  with 1 3 show ?thesis by blast
qed

text \<open>As stated, C9 fails: the statistics \<^verbatim>\<open>AsyncCrawl\<close> returns differ from the phase-1
  statistics in \<^verbatim>\<open>Average200Time\<close>, which \<^verbatim>\<open>crawlUrls\<close> leaves zero.\<close>

theorem link_following_off_counterexample:
  "map_sum id (Average200Time \<circ> fst \<circ> fst)
     (AsyncCrawl no_rewrite [''a'', ''b''] (sample_config False) (0::nat)) = Inr 15 \<and>
   map_sum id (Average200Time \<circ> fst \<circ> snd \<circ> fst)
     (crawlUrls (effective_urls no_rewrite [''a'', ''b''] (sample_config False))
        (effective_config (sample_config False)) (0::nat)) = Inr 0"
  by code_simp

section \<open>The average (C10)\<close>

lemma populateCrawlStats_sum:
  assumes "populateCrawlStats r (s, t) = Inr (s', t')"
  shows "Average200Time s' = Average200Time s \<and>
         t' = (if StatusCode r = 200 then t + serverTime_of r else t)"
  using assms
  by (auto simp: populateCrawlStats_def Let_def serverTime_of_def split: option.splits if_splits)

lemma consume_sum:
  "consume rs (res, s, t) = Inr (res', s', t') \<Longrightarrow>
     Average200Time s' = Average200Time s \<and> t' = t + sum200 rs"
proof (induction rs arbitrary: res s t)
  case Nil
  then show ?case by (simp add: sum200_def)
next
  case (Cons r rs)
  from Cons.prems obtain s1 t1 where
    p: "populateCrawlStats r (s, t) = Inr (s1, t1)" and
    c: "consume rs (AList.update (URL r) r res, s1, t1) = Inr (res', s', t')"
    by (auto split: sum.splits)
  from populateCrawlStats_sum [OF p] Cons.IH [OF c] show ?case
    by (simp add: sum200_def)
qed

lemma consume_fresh:
  "\<exists>res s t. consume rs ([], fresh_stats, 0) = Inr (res, s, t) \<and>
      Average200Time s = 0 \<and> t = sum200 rs"
proof -
  from consume_inv [OF phase_inv_fresh, of rs "[]" 0] obtain res s t where
    c: "consume rs ([], fresh_stats, 0) = Inr (res, s, t)"
    by blast
  from consume_sum [OF c] c show ?thesis
    by (simp add: fresh_stats_def zero_stats_def)
qed

lemma finalize_average:
  "Average200Time s = 0 \<Longrightarrow>
     Average200Time (finalize s t) =
       (if 0 <s index_map (StatusCodes s) 200 then go_quot t (index_map (StatusCodes s) 200)
        else 0)"
  by (simp add: finalize_def Let_def)

lemma AsyncCrawl_average:
  "\<exists>res s1 t1 w1.
      crawlUrls (effective_urls rw urls config) (effective_config config) w =
        Inr ((res, s1, t1), w1) \<and> Average200Time s1 = 0 \<and>
      (if ParseLinks (HTTP (effective_config config)) then
         \<exists>res2 s2 t2 w2 final err.
            crawlPageLinks res (effective_config config) w1 = Inr ((res2, s2, t2), w2) \<and>
            Average200Time s2 = 0 \<and>
            AsyncCrawl rw urls config w = Inr ((final, err), w2) \<and>
            index_map (StatusCodes final) 200 =
              index_map (StatusCodes s1) 200 + index_map (StatusCodes s2) 200 \<and>
            Average200Time final =
              (if 0 <s index_map (StatusCodes final) 200
               then go_quot (t1 + t2) (index_map (StatusCodes final) 200) else 0)
       else
         \<exists>final err.
            AsyncCrawl rw urls config w = Inr ((final, err), w1) \<and>
            index_map (StatusCodes final) 200 = index_map (StatusCodes s1) 200 \<and>
            Average200Time final =
              (if 0 <s index_map (StatusCodes final) 200
               then go_quot t1 (index_map (StatusCodes final) 200) else 0))"
proof -
  let ?cfg = "effective_config config" and ?urls = "effective_urls rw urls config"
  from crawlUrls_inv [of ?urls ?cfg w] obtain res s1 t1 w1 where
    1: "crawlUrls ?urls ?cfg w = Inr ((res, s1, t1), w1)" and i1: "phase_inv s1"
    by blast
  from i1 have a1: "Average200Time s1 = 0"
    by (simp add: phase_inv_def)
  show ?thesis
  proof (cases "ParseLinks (HTTP ?cfg)")
    case False
    from AsyncCrawl_one_phase [OF False 1] have
      "\<exists>final err. AsyncCrawl rw urls config w = Inr ((final, err), w1) \<and>
            index_map (StatusCodes final) 200 = index_map (StatusCodes s1) 200 \<and>
            Average200Time final =
              (if 0 <s index_map (StatusCodes final) 200
               then go_quot t1 (index_map (StatusCodes final) 200) else 0)"
      by (simp add: finalize_average [OF a1])
    with False 1 a1 show ?thesis
      by (simp only: if_False) blast
  next
    case True
    from crawlPageLinks_inv [of res ?cfg w1] obtain res2 s2 t2 w2 where
      2: "crawlPageLinks res ?cfg w1 = Inr ((res2, s2, t2), w2)" and i2: "phase_inv s2"
      by blast
    from i2 have a2: "Average200Time s2 = 0"
      by (simp add: phase_inv_def)
    from MergeCrawlStats_phase [OF i1 i2] obtain m where
      3: "MergeCrawlStats s1 s2 = Inr m" and i3: "phase_inv m" and
      n: "index_map (StatusCodes m) 200 =
            index_map (StatusCodes s1) 200 + index_map (StatusCodes s2) 200"
      by blast
    from i3 have a3: "Average200Time m = 0"
      by (simp add: phase_inv_def)
    from AsyncCrawl_two_phases [OF True 1 2 3] have
      "\<exists>final err. AsyncCrawl rw urls config w = Inr ((final, err), w2) \<and>
            index_map (StatusCodes final) 200 =
              index_map (StatusCodes s1) 200 + index_map (StatusCodes s2) 200 \<and>
            Average200Time final =
              (if 0 <s index_map (StatusCodes final) 200
               then go_quot (t1 + t2) (index_map (StatusCodes final) 200) else 0)"
      by (simp add: finalize_average [OF a3] n)
    with True 1 2 a1 a2 show ?thesis
      by (simp only: if_True) blast
  qed
qed


text \<open>
  C10. Accumulation never writes \<^verbatim>\<open>Average200Time\<close>: after any sequence of record steps
  from the freshly allocated statistics of \<^verbatim>\<open>crawlUrls\<close> the average is still the zero
  duration, and the sum of the 200-latencies is carried beside the accumulator. The average
  \<^verbatim>\<open>AsyncCrawl\<close> returns is written by its finalisation alone: both phases end with a zero
  average, and the result holds the combined 200-latency sum divided by the merged 200-count
  when that count is positive, and zero otherwise.
\<close>

theorem average_written_only_by_finalization:
  "(\<exists>res s t. consume rs ([], fresh_stats, 0) = Inr (res, s, t) \<and>
      Average200Time s = 0 \<and> t = sum200 rs) \<and>
   (\<exists>res s1 t1 w1.
      crawlUrls (effective_urls rw urls config) (effective_config config) w =
        Inr ((res, s1, t1), w1) \<and> Average200Time s1 = 0 \<and>
      (if ParseLinks (HTTP (effective_config config)) then
         \<exists>res2 s2 t2 w2 final err.
            crawlPageLinks res (effective_config config) w1 = Inr ((res2, s2, t2), w2) \<and>
            Average200Time s2 = 0 \<and>
            AsyncCrawl rw urls config w = Inr ((final, err), w2) \<and>
            index_map (StatusCodes final) 200 =
              index_map (StatusCodes s1) 200 + index_map (StatusCodes s2) 200 \<and>
            Average200Time final =
              (if 0 <s index_map (StatusCodes final) 200
               then go_quot (t1 + t2) (index_map (StatusCodes final) 200) else 0)
       else
         \<exists>final err.
            AsyncCrawl rw urls config w = Inr ((final, err), w1) \<and>
            index_map (StatusCodes final) 200 = index_map (StatusCodes s1) 200 \<and>
            Average200Time final =
              (if 0 <s index_map (StatusCodes final) 200
               then go_quot t1 (index_map (StatusCodes final) 200) else 0)))"
  using consume_fresh [of rs] AsyncCrawl_average [of rw urls config w]
  by (rule conjI)

lemma sample_phases:
  "map_sum id (\<lambda>((res, s, t), w). (Average200Time s, t, w))
     (crawlUrls (effective_urls no_rewrite [''a'', ''b''] (sample_config True))
        (effective_config (sample_config True)) (0::nat)) = Inr (0, 30, 1)"
  by code_simp

theorem average_written_only_by_finalization_witness:
  "(\<exists>res s. consume [sample_page ''a'', sample_page ''c'', sample_page ''b'']
        ([], fresh_stats, 0) = Inr (res, s, 30) \<and> Average200Time s = 0) \<and>
   (\<exists>res s1. crawlUrls (effective_urls no_rewrite [''a'', ''b''] (sample_config True))
        (effective_config (sample_config True)) (0::nat) = Inr ((res, s1, 30), 1) \<and>
      Average200Time s1 = 0 \<and>
      (\<exists>final err. AsyncCrawl no_rewrite [''a'', ''b''] (sample_config True) (0::nat) =
          Inr ((final, err), 2) \<and> Average200Time final = 15))"
proof -
  note T = average_written_only_by_finalization
    [of "[sample_page ''a'', sample_page ''c'', sample_page ''b'']"
        no_rewrite "[''a'', ''b'']" "sample_config True" "0::nat"]
  have s: "sum200 [sample_page ''a'', sample_page ''c'', sample_page ''b''] = 30"
    by (simp add: sum200_def sample_page_def sample_response_def serverTime_of_def)
  from T [THEN conjunct1] have 1:
    "\<exists>res s. consume [sample_page ''a'', sample_page ''c'', sample_page ''b'']
        ([], fresh_stats, 0) = Inr (res, s, 30) \<and> Average200Time s = 0"
    unfolding s by blast
  from T [THEN conjunct2] obtain res s1 t1 w1 where
    c: "crawlUrls (effective_urls no_rewrite [''a'', ''b''] (sample_config True))
          (effective_config (sample_config True)) 0 = Inr ((res, s1, t1), w1)" and
    a: "Average200Time s1 = 0"
    by blast
  from c sample_phases have "t1 = 30" "w1 = 1"
    by simp_all
  with c a sample_crawl_follow have 2:
    "\<exists>res s1. crawlUrls (effective_urls no_rewrite [''a'', ''b''] (sample_config True))
        (effective_config (sample_config True)) (0::nat) = Inr ((res, s1, 30), 1) \<and>
      Average200Time s1 = 0 \<and>
      (\<exists>final err. AsyncCrawl no_rewrite [''a'', ''b''] (sample_config True) (0::nat) =
          Inr ((final, err), 2) \<and> Average200Time final = 15)"
    by simp
  from 1 2 show ?thesis by (rule conjI)
qed

section \<open>The frontier of phase 2 (C6)\<close>

lemma fold_visit_link:
  "fold (visit_link rs p src) links acc =
     fold add_pair (map (\<lambda>link. (TargetURL link, src))
       (filter (\<lambda>link. \<not> skip_link p link \<and> map_of rs (TargetURL link) = None) links)) acc"
  by (induction links arbitrary: acc) (auto simp: visit_link_def add_pair_def)

lemma fold_results:
  "fold (\<lambda>(key, result) acc. fold (visit_link rs0 p (URL result)) (Links result) acc) rs acc =
     fold add_pair (candidates rs0 p rs) acc"
proof (induction rs arbitrary: acc)
  case Nil
  show ?case by (simp add: candidates_def)
next
  case (Cons e rs)
  let ?F = "\<lambda>(key, result) acc. fold (visit_link rs0 p (URL result)) (Links result) acc"
  obtain key result where e: "e = (key, result)" by (cases e)
  let ?xs = "map (\<lambda>link. (TargetURL link, URL result)) (kept_links rs0 p result)"
  have c: "candidates rs0 p (e # rs) = ?xs @ candidates rs0 p rs"
    by (simp add: candidates_def e)
  have h: "?F e acc = fold add_pair ?xs acc"
    by (simp add: e fold_visit_link kept_links_def)
  have "fold ?F (e # rs) acc = fold ?F rs (?F e acc)"
    by simp
  also have "\<dots> = fold add_pair (candidates rs0 p rs) (?F e acc)"
    by (rule Cons.IH)
  also have "\<dots> = fold add_pair (candidates rs0 p (e # rs)) acc"
    by (simp only: h c fold_append comp_apply)
  finally show ?case .
qed

lemma linkedUrlsSet_of_candidates:
  "linkedUrlsSet_of rs p = fold add_pair (candidates rs p rs) []"
  by (simp add: linkedUrlsSet_of_def fold_results)

lemma slice_of_add_pair:
  "slice_of (add_pair q m) t = (if fst q = t then slice_of m t @ [snd q] else slice_of m t)"
  by (simp add: slice_of_def add_pair_def update_conv')

lemma keys_add_pair: "fst ` set (add_pair q m) = insert (fst q) (fst ` set m)"
  by (simp add: add_pair_def dom_update)

lemma slice_of_fold_add_pair:
  "slice_of (fold add_pair ps m) t = slice_of m t @ map snd (filter (\<lambda>q. fst q = t) ps)"
  by (induction ps arbitrary: m) (simp_all add: slice_of_add_pair)

lemma keys_fold_add_pair:
  "fst ` set (fold add_pair ps m) = fst ` set ps \<union> fst ` set m"
  by (induction ps arbitrary: m) (auto simp: keys_add_pair)

lemma slice_of_Nil [simp]: "slice_of [] t = []"
  by (simp add: slice_of_def)

lemma map_of_slice_of:
  "map_of m t = (if t \<in> fst ` set m then Some (slice_of m t) else None)"
  by (auto simp: slice_of_def map_of_eq_None_iff [symmetric] split: option.splits)

lemma keys_linkedUrlsSet_of:
  "fst ` set (linkedUrlsSet_of rs p) = fst ` set (candidates rs p rs)"
  by (simp add: linkedUrlsSet_of_candidates keys_fold_add_pair)

lemma map_of_linkedUrlsSet_of:
  "map_of (linkedUrlsSet_of rs p) t =
     (if t \<in> fst ` set (candidates rs p rs) then Some (referrers rs p t) else None)"
  by (simp add: map_of_slice_of [of "linkedUrlsSet_of rs p"] keys_linkedUrlsSet_of referrers_def)
    (simp add: linkedUrlsSet_of_candidates slice_of_fold_add_pair)

lemma in_candidates:
  "(t, src) \<in> set (candidates rs0 p rs) \<longleftrightarrow>
     (\<exists>(key, result) \<in> set rs. \<exists>link \<in> set (Links result).
         TargetURL link = t \<and> URL result = src \<and> \<not> skip_link p link \<and>
         map_of rs0 (TargetURL link) = None)"
  by (auto simp: candidates_def kept_links_def)


lemma distinct_fold_add_pair:
  "distinct (map fst m) \<Longrightarrow> distinct (map fst (fold add_pair ps m))"
  by (induction ps arbitrary: m) (simp_all add: add_pair_def distinct_update)

lemma distinct_linkedUrlsSet_of: "distinct (map fst (linkedUrlsSet_of rs p))"
  by (simp add: linkedUrlsSet_of_candidates distinct_fold_add_pair)

lemma in_frontier_iff:
  "t \<in> fst ` set (candidates rs p rs) \<longleftrightarrow>
     t \<notin> fst ` set rs \<and>
     (\<exists>(key, result) \<in> set rs. \<exists>link \<in> set (Links result). TargetURL link = t \<and>
         \<not> (IsExternal link \<and> \<not> CrawlExternalLinks p) \<and>
         \<not> (Type link = Hyperlink \<and> \<not> CrawlHyperlinks p) \<and>
         \<not> (Type link = Image_t \<and> \<not> CrawlImages p))"
proof -
  have "t \<in> fst ` set (candidates rs p rs) \<longleftrightarrow> (\<exists>src. (t, src) \<in> set (candidates rs p rs))"
    by force
  also have "\<dots> \<longleftrightarrow> map_of rs t = None \<and>
     (\<exists>(key, result) \<in> set rs. \<exists>link \<in> set (Links result). TargetURL link = t \<and>
         \<not> skip_link p link)"
    by (auto simp: in_candidates)
  finally show ?thesis
    by (simp add: map_of_eq_None_iff skip_link_def) blast
qed

text \<open>
  C6. The frontier of phase 2, the keys of \<^verbatim>\<open>linkedUrlsSet\<close> in \<^verbatim>\<open>crawlPageLinks\<close>, holds a
  URL exactly when it is not a key of the phase-1 result set and is the target of a link of
  a phase-1 result that survives the filter: not (external and external links not
  followed), not (hyperlink and hyperlinks not followed), not (image and images not
  followed). Each URL of the frontier occurs once and is mapped to the list of the source
  URLs of those links, in visiting order.
\<close>

theorem frontier_filtered_and_new:
  "(t \<in> set (map fst (linkedUrlsSet_of sourceResults policy)) \<longleftrightarrow>
      t \<notin> fst ` set sourceResults \<and>
      (\<exists>(key, result) \<in> set sourceResults. \<exists>link \<in> set (Links result).
          TargetURL link = t \<and>
          \<not> (IsExternal link \<and> \<not> CrawlExternalLinks policy) \<and>
          \<not> (Type link = Hyperlink \<and> \<not> CrawlHyperlinks policy) \<and>
          \<not> (Type link = Image_t \<and> \<not> CrawlImages policy))) \<and>
   map_of (linkedUrlsSet_of sourceResults policy) t =
     (if t \<in> set (map fst (linkedUrlsSet_of sourceResults policy))
      then Some (referrers sourceResults policy t) else None) \<and>
   distinct (map fst (linkedUrlsSet_of sourceResults policy))"
  using in_frontier_iff [of t sourceResults policy]
    map_of_linkedUrlsSet_of [of sourceResults policy t]
    distinct_linkedUrlsSet_of [of sourceResults policy]
  by (simp add: keys_linkedUrlsSet_of)

lemma sample_frontier:
  "linkedUrlsSet_of sample_results (Links_cfg (sample_config True)) = [(''c'', [''a'', ''b''])]"
  by (simp add: sample_results_def linkedUrlsSet_of_def visit_link_def skip_link_def
      sample_page_def sample_response_def sample_config_def slice_of_def)

theorem frontier_filtered_and_new_witness:
  "linkedUrlsSet_of sample_results (Links_cfg (sample_config True)) = [(''c'', [''a'', ''b''])] \<and>
   ''b'' \<notin> set (map fst (linkedUrlsSet_of sample_results (Links_cfg (sample_config True)))) \<and>
   referrers sample_results (Links_cfg (sample_config True)) ''c'' = [''a'', ''b'']"
proof -
  note T = frontier_filtered_and_new [of _ sample_results "Links_cfg (sample_config True)"]
  have k: "''b'' \<in> fst ` set sample_results"
    by (simp add: sample_results_def)
  from T [of "''b''", THEN conjunct1] k
  have 1: "''b'' \<notin> set (map fst (linkedUrlsSet_of sample_results (Links_cfg (sample_config True))))"
    by blast
  from T [of "''c''", THEN conjunct2, THEN conjunct1]
  have 2: "referrers sample_results (Links_cfg (sample_config True)) ''c'' = [''a'', ''b'']"
    by (simp add: sample_frontier)
  from sample_frontier 1 2 show ?thesis by (intro conjI)
qed

section \<open>The fetcher (C5)\<close>

text \<open>
  C5 (amended). \<^verbatim>\<open>HTTPGet\<close> returns a response rather than panicking whenever \<^verbatim>\<open>client.Do\<close>
  yields a response or an error (as its contract says). When the request cannot be built,
  or the transport fails and there is no response, the result has status code 0 and
  carries the error. Whenever a response arrives, whatever its status, the result has that
  status code, and its error is the one \<^verbatim>\<open>client.Do\<close> reported: none for a response alone, the
  error for a response that comes with one (as when the redirect policy fails).
\<close>

theorem HTTPGet_returns:
  "(client_Do env u config \<noteq> (None, None) \<longrightarrow> (\<exists>r. HTTPGet env u config = Inr r)) \<and>
   (NewRequest_err env u = Some e \<longrightarrow>
      (\<exists>r. HTTPGet env u config = Inr r \<and> StatusCode r = 0 \<and> Err r = Some e)) \<and>
   (NewRequest_err env u = None \<and> client_Do env u config = (None, Some e) \<longrightarrow>
      (\<exists>r. HTTPGet env u config = Inr r \<and> StatusCode r = 0 \<and> Err r = Some e)) \<and>
   (NewRequest_err env u = None \<and> client_Do env u config = (Some resp, err) \<longrightarrow>
      (\<exists>r. HTTPGet env u config = Inr r \<and> StatusCode r = resp_StatusCode resp \<and>
           Err r = err))"
proof (intro conjI impI)
  assume "client_Do env u config \<noteq> (None, None)"
  then show "\<exists>r. HTTPGet env u config = Inr r"
    by (cases "client_Do env u config")
      (auto simp: HTTPGet_def Let_def split: option.splits prod.splits)
next
  assume "NewRequest_err env u = Some e"
  then show "\<exists>r. HTTPGet env u config = Inr r \<and> StatusCode r = 0 \<and> Err r = Some e"
    by (simp add: HTTPGet_def Let_def)
next
  assume "NewRequest_err env u = None \<and> client_Do env u config = (None, Some e)"
  then show "\<exists>r. HTTPGet env u config = Inr r \<and> StatusCode r = 0 \<and> Err r = Some e"
    by (simp add: HTTPGet_def Let_def)
next
  assume "NewRequest_err env u = None \<and> client_Do env u config = (Some resp, err)"
  then show "\<exists>r. HTTPGet env u config = Inr r \<and> StatusCode r = resp_StatusCode resp \<and>
           Err r = err"
    by (cases err) (auto simp: HTTPGet_def Let_def split: option.splits prod.splits)
qed

theorem HTTPGet_returns_witness:
  "(\<exists>r. HTTPGet sample_env ''%zz'' sample_http_config = Inr r \<and> StatusCode r = 0 \<and>
        Err r = Some ''invalid URL escape'') \<and>
   (\<exists>r. HTTPGet sample_env ''http://down/'' sample_http_config = Inr r \<and> StatusCode r = 0 \<and>
        Err r = Some ''connection refused'') \<and>
   (\<exists>r. HTTPGet sample_env ''http://up/'' sample_http_config = Inr r \<and> StatusCode r = 503 \<and>
        Err r = None) \<and>
   (\<exists>r. HTTPGet sample_env ''http://loop/'' sample_http_config = Inr r \<and> StatusCode r = 302 \<and>
        Err r = Some ''stopped after 10 redirects'')"
proof -
  have 1: "NewRequest_err sample_env ''%zz'' = Some ''invalid URL escape''"
    by (simp add: sample_env_def)
  have 2: "NewRequest_err sample_env ''http://down/'' = None \<and>
      client_Do sample_env ''http://down/'' sample_http_config = (None, Some ''connection refused'')"
    by (simp add: sample_env_def)
  have 3: "NewRequest_err sample_env ''http://up/'' = None \<and>
      client_Do sample_env ''http://up/'' sample_http_config =
        (Some \<lparr>resp_StatusCode = 503, Body = ''busy''\<rparr>, None)"
    by (simp add: sample_env_def)
  have 4: "NewRequest_err sample_env ''http://loop/'' = None \<and>
      client_Do sample_env ''http://loop/'' sample_http_config =
        (Some \<lparr>resp_StatusCode = 302, Body = []\<rparr>, Some ''stopped after 10 redirects'')"
    by (simp add: sample_env_def)
  from HTTPGet_returns [of sample_env "''%zz''" sample_http_config "''invalid URL escape''"] 1
  have a: "\<exists>r. HTTPGet sample_env ''%zz'' sample_http_config = Inr r \<and> StatusCode r = 0 \<and>
        Err r = Some ''invalid URL escape''"
    by blast
  from HTTPGet_returns [of sample_env "''http://down/''" sample_http_config "''connection refused''"] 2
  have b: "\<exists>r. HTTPGet sample_env ''http://down/'' sample_http_config = Inr r \<and> StatusCode r = 0 \<and>
        Err r = Some ''connection refused''"
    by blast
  from HTTPGet_returns [of sample_env "''http://up/''" sample_http_config _
      "\<lparr>resp_StatusCode = 503, Body = ''busy''\<rparr>" None] 3
  have c: "\<exists>r. HTTPGet sample_env ''http://up/'' sample_http_config = Inr r \<and> StatusCode r = 503 \<and>
        Err r = None"
    by simp
  from HTTPGet_returns [of sample_env "''http://loop/''" sample_http_config _
      "\<lparr>resp_StatusCode = 302, Body = []\<rparr>" "Some ''stopped after 10 redirects''"] 4
  have d: "\<exists>r. HTTPGet sample_env ''http://loop/'' sample_http_config = Inr r \<and> StatusCode r = 302 \<and>
        Err r = Some ''stopped after 10 redirects''"
    by simp
  from a b c d show ?thesis by (intro conjI)
qed

text \<open>As stated, C5 fails: a response has been received (status 302), and the result
  carries that status code together with an error, since \<^verbatim>\<open>client.Do\<close> returned the response
  and the error of the failed redirect policy.\<close>

theorem HTTPGet_response_with_error_counterexample:
  "client_Do sample_env ''http://loop/'' sample_http_config =
     (Some \<lparr>resp_StatusCode = 302, Body = []\<rparr>, Some ''stopped after 10 redirects'') \<and>
   map_sum id StatusCode (HTTPGet sample_env ''http://loop/'' sample_http_config) = Inr 302 \<and>
   map_sum id Err (HTTPGet sample_env ''http://loop/'' sample_http_config) =
     Inr (Some ''stopped after 10 redirects'')"
  by (simp add: sample_env_def HTTPGet_def Let_def)

section \<open>The worker pool: invariant\<close>

lemma mset_update_split:
  assumes "k < length ws"
  shows "\<exists>M. mset ws = add_mset (ws ! k) M \<and> (\<forall>w'. mset (ws[k := w']) = add_mset w' M)"
proof -
  have "ws ! k \<in># mset ws"
    using assms by simp
  then have "mset ws = add_mset (ws ! k) (mset ws - {#ws ! k#})"
    by simp
  moreover have "\<forall>w'. mset (ws[k := w']) = add_mset w' (mset ws - {#ws ! k#})"
    using assms by (simp add: mset_update)
  ultimately show ?thesis by blast
qed

lemma length_filter_mset: "length (filter P ws) = size (filter_mset P (mset ws))"
  by (metis mset_filter size_mset)

lemma map_wurl_set_phase:
  "k < length ws \<Longrightarrow> map wurl (ws[k := (ws ! k)\<lparr>phase := ph\<rparr>]) = map wurl ws"
  by (simp add: map_update list_update_same_conv)

lemma pool_inv_init: "pool_inv n httpGet config urls (init_pool n urls q)"
  by (simp add: pool_inv_def init_pool_def)

lemma pool_inv_Dispatch:
  assumes "pool_inv n httpGet config urls s" "step n httpGet config Dispatch s = Some s'"
  shows "pool_inv n httpGet config urls s'"
  using assms
  by (auto simp: pool_inv_def holding_def split: if_splits list.splits)

lemma pool_inv_dispatcher:
  assumes "pool_inv n httpGet config urls s"
    "step n httpGet config Take_quit s = Some s' \<or> step n httpGet config Loop_end s = Some s' \<or>
     step n httpGet config Close s = Some s' \<or> step n httpGet config Signal s = Some s'"
  shows "pool_inv n httpGet config urls s'"
  using assms
  by (auto simp: pool_inv_def split: if_splits)


lemma alive_worker_counted:
  assumes "k < length ws" "phase (ws ! k) \<noteq> Exited"
  shows "0 < length (filter (\<lambda>w. phase w \<noteq> Exited) ws)"
proof -
  have "ws ! k \<in> set (filter (\<lambda>w. phase w \<noteq> Exited) ws)"
    using assms by simp
  then show ?thesis
    by (metis length_pos_if_in_set)
qed

lemma pool_inv_Emit:
  assumes inv: "pool_inv n httpGet config urls s"
    and st: "step n httpGet config (Emit k) s = Some s'"
  shows "pool_inv n httpGet config urls s'"
proof -
  from st have k: "k < length (workers s)" and ph: "phase (workers s ! k) = Fetching"
    by (simp_all add: in_phase_def split: if_splits)
  from alive_worker_counted [OF k] ph have "0 < length (filter (\<lambda>w. phase w \<noteq> Exited) (workers s))"
    by simp
  with inv have opn: "\<not> chan_closed s"
    by (auto simp: pool_inv_def split: if_splits)
  let ?w = "workers s ! k"
  from st k ph opn have s': "s' = set_phase k Sent
      (s\<lparr>resultChan := resultChan s @ [httpGet (client ?w) (wurl ?w) config]\<rparr>)"
    by (simp add: in_phase_def split: if_splits)
  from mset_update_split [OF k] obtain M where
    M: "mset (workers s) = add_mset ?w M"
       "\<And>w'. mset ((workers s)[k := w']) = add_mset w' M"
    by blast
  from inv show ?thesis
    unfolding pool_inv_def s' set_phase_def
    by (auto simp add: M length_filter_mset map_wurl_set_phase [OF k] ph holding_def result_of_def
        split: if_splits)
qed

lemma pool_inv_Put_back:
  assumes inv: "pool_inv n httpGet config urls s"
    and st: "step n httpGet config (Put_back k) s = Some s'"
  shows "pool_inv n httpGet config urls s'"
proof -
  from st have k: "k < length (workers s)" and ph: "phase (workers s ! k) = Sent"
    by (simp_all add: in_phase_def split: if_splits)
  let ?w = "workers s ! k"
  from st k ph have s': "s' = set_phase k Returned
      (s\<lparr>clientsReady := clientsReady s @ [client ?w]\<rparr>)"
    by (simp add: in_phase_def split: if_splits)
  from mset_update_split [OF k] obtain M where
    M: "mset (workers s) = add_mset ?w M"
       "\<And>w'. mset ((workers s)[k := w']) = add_mset w' M"
    by blast
  from inv show ?thesis
    unfolding pool_inv_def s' set_phase_def
    by (auto simp add: M length_filter_mset map_wurl_set_phase [OF k] ph holding_def result_of_def
        split: if_splits)
qed

lemma pool_inv_Done:
  assumes inv: "pool_inv n httpGet config urls s"
    and st: "step n httpGet config (Done k) s = Some s'"
  shows "pool_inv n httpGet config urls s'"
proof -
  from st have k: "k < length (workers s)" and ph: "phase (workers s ! k) = Returned"
    by (simp_all add: in_phase_def split: if_splits)
  from alive_worker_counted [OF k] ph have "0 < length (filter (\<lambda>w. phase w \<noteq> Exited) (workers s))"
    by simp
  with inv have pos: "wg s \<noteq> 0"
    by (simp add: pool_inv_def)
  with inv have nf: "dispatcher s \<noteq> Finished"
    by (auto simp: pool_inv_def split: if_splits)
  let ?w = "workers s ! k"
  from st k ph pos have s': "s' = set_phase k Exited (s\<lparr>wg := wg s - 1\<rparr>)"
    by (simp add: in_phase_def split: if_splits)
  from mset_update_split [OF k] obtain M where
    M: "mset (workers s) = add_mset ?w M"
       "\<And>w'. mset ((workers s)[k := w']) = add_mset w' M"
    by blast
  from inv nf show ?thesis
    unfolding pool_inv_def s' set_phase_def
    by (auto simp add: M length_filter_mset map_wurl_set_phase [OF k] ph holding_def result_of_def
        split: if_splits)
qed

lemma pool_inv_step:
  assumes "pool_inv n httpGet config urls s" "step n httpGet config e s = Some s'"
  shows "pool_inv n httpGet config urls s'"
proof (cases e)
  case Dispatch
  with assms show ?thesis by (simp only: pool_inv_Dispatch)
next
  case (Emit k)
  with assms show ?thesis by (simp only: pool_inv_Emit)
next
  case (Put_back k)
  with assms show ?thesis by (simp only: pool_inv_Put_back)
next
  case (Done k)
  with assms show ?thesis by (simp only: pool_inv_Done)
qed (use assms pool_inv_dispatcher in blast)+

lemma pool_inv_run:
  "pool_inv n httpGet config urls s \<Longrightarrow> run n httpGet config es s = Some s' \<Longrightarrow>
     pool_inv n httpGet config urls s'"
proof (induction es arbitrary: s)
  case Nil
  then show ?case by simp
next
  case (Cons e es)
  from Cons.prems(2) obtain s1 where
    1: "step n httpGet config e s = Some s1" and 2: "run n httpGet config es s1 = Some s'"
    by (auto split: option.splits)
  from Cons.IH [OF pool_inv_step [OF Cons.prems(1) 1] 2] show ?case .
qed

section \<open>Bounded concurrency (C8)\<close>

lemma clients_partition:
  assumes "pool_inv n httpGet config urls s"
  shows "distinct (map client (filter holding (workers s)) @ clientsReady s) \<and>
         set (map client (filter holding (workers s)) @ clientsReady s) = {0..<n} \<and>
         length (filter holding (workers s)) + length (clientsReady s) = n"
proof -
  let ?xs = "map client (filter holding (workers s)) @ clientsReady s"
  from assms have m: "mset ?xs = mset [0..<n]"
    by (simp add: pool_inv_def)
  have "distinct ?xs"
    using mset_eq_imp_distinct_iff [OF m] by simp
  moreover have "set ?xs = {0..<n}"
    using mset_eq_setD [OF m] by simp
  moreover have "length ?xs = n"
    using mset_eq_length [OF m] by simp
  ultimately show ?thesis by simp
qed

lemma length_filter_mono:
  "(\<And>x. P x \<Longrightarrow> Q x) \<Longrightarrow> length (filter P xs) \<le> length (filter Q xs)"
  by (induction xs) auto

lemma fetching_le_holding:
  "length (filter (\<lambda>w. phase w = Fetching) ws) \<le> length (filter holding ws)"
  by (rule length_filter_mono) (simp add: holding_def)

lemma Put_back_only_after_send:
  "step n httpGet config (Put_back k) s = Some s' \<Longrightarrow>
     in_phase k Sent s \<and> in_phase k Returned s' \<and>
     clientsReady s' = clientsReady s @ [client (workers s ! k)]"
  by (auto simp: in_phase_def set_phase_def split: if_splits)

text \<open>
  C8. In every state a schedule of \<^verbatim>\<open>RunConcurrentGet\<close> reaches, with any pool size, any
  URL list and any moment of cancellation: at most \<^verbatim>\<open>maxConcurrent\<close> goroutines hold a
  client, so at most \<^verbatim>\<open>maxConcurrent\<close> fetches run; the clients held and the clients in
  \<^verbatim>\<open>clientsReady\<close> are the \<^verbatim>\<open>maxConcurrent\<close> clients of the pool, each once, so a running
  fetch holds a client no other fetch holds and that is not in the queue; and a client is
  put back only by a goroutine that has sent the result of its fetch.
\<close>

theorem bounded_concurrency:
  assumes "run n httpGet config es (init_pool n urls q) = Some s"
  shows "length (filter (\<lambda>w. phase w = Fetching) (workers s)) \<le> n \<and>
         length (filter holding (workers s)) + length (clientsReady s) = n \<and>
         distinct (map client (filter holding (workers s)) @ clientsReady s) \<and>
         set (map client (filter holding (workers s)) @ clientsReady s) = {0..<n} \<and>
         (\<forall>k s'. step n httpGet config (Put_back k) s = Some s' \<longrightarrow>
            in_phase k Sent s \<and> in_phase k Returned s' \<and>
            clientsReady s' = clientsReady s @ [client (workers s ! k)])"
proof -
  have inv: "pool_inv n httpGet config urls s"
    using pool_inv_run [OF pool_inv_init assms] .
  from clients_partition [OF inv] fetching_le_holding [of "workers s"]
  have "length (filter (\<lambda>w. phase w = Fetching) (workers s)) \<le> n"
    by linarith
  with clients_partition [OF inv] Put_back_only_after_send show ?thesis
    by blast
qed

lemma sample_run_prefix:
  "run 1 sample_get sample_http_config [Dispatch, Signal, Emit 0]
     (init_pool 1 [''a'', ''b'', ''c''] False) = Some sample_sent"
  by (simp add: init_pool_def in_phase_def set_phase_def sample_get_def sample_sent_def)

lemma sample_put_back:
  "step 1 sample_get sample_http_config (Put_back 0) sample_sent =
     Some (sample_sent\<lparr>clientsReady := [0],
       workers := [\<lparr>client = 0, wurl = ''a'', phase = Returned\<rparr>]\<rparr>)"
  by (simp add: sample_sent_def in_phase_def set_phase_def)

theorem bounded_concurrency_witness:
  "run 1 sample_get sample_http_config [Dispatch, Signal, Emit 0]
     (init_pool 1 [''a'', ''b'', ''c''] False) = Some sample_sent \<and>
   length (filter holding (workers sample_sent)) + length (clientsReady sample_sent) = 1 \<and>
   set (map client (filter holding (workers sample_sent)) @ clientsReady sample_sent) = {0..<1} \<and>
   step 1 sample_get sample_http_config (Put_back 0) sample_sent =
     Some (sample_sent\<lparr>clientsReady := [0],
       workers := [\<lparr>client = 0, wurl = ''a'', phase = Returned\<rparr>]\<rparr>) \<and>
   in_phase 0 Sent sample_sent"
proof -
  note T = bounded_concurrency [OF sample_run_prefix]
  from T have 1:
    "length (filter holding (workers sample_sent)) + length (clientsReady sample_sent) = 1"
    "set (map client (filter holding (workers sample_sent)) @ clientsReady sample_sent) = {0..<1}"
    by blast+
  from T sample_put_back have 2: "in_phase 0 Sent sample_sent"
    by blast
  from sample_run_prefix 1 sample_put_back 2 show ?thesis
    by (intro conjI)
qed

section \<open>The worker pool: results and progress\<close>

lemma step_after_loop:
  assumes "dispatcher s \<noteq> Selecting" "step n httpGet config e s = Some s'"
  shows "dispatcher s' \<noteq> Selecting \<and> map wurl (workers s') = map wurl (workers s) \<and>
         urls_left s' = urls_left s"
  using assms
  by (cases e)
    (auto simp: set_phase_def in_phase_def map_wurl_set_phase split: if_splits)

lemma run_after_loop:
  "dispatcher s \<noteq> Selecting \<Longrightarrow> run n httpGet config es s = Some s' \<Longrightarrow>
     dispatcher s' \<noteq> Selecting \<and> map wurl (workers s') = map wurl (workers s) \<and>
     urls_left s' = urls_left s"
proof (induction es arbitrary: s)
  case Nil
  then show ?case by simp
next
  case (Cons e es)
  from Cons.prems(2) obtain s1 where
    1: "step n httpGet config e s = Some s1" and 2: "run n httpGet config es s1 = Some s'"
    by (auto split: option.splits)
  from step_after_loop [OF Cons.prems(1) 1] Cons.IH [OF _ 2] show ?case
    by simp
qed

lemma results_subset:
  assumes "pool_inv n httpGet config urls s"
  shows "mset (resultChan s) \<subseteq># mset (map (result_of httpGet config) (workers s))"
proof -
  have "mset (filter (\<lambda>w. phase w \<noteq> Fetching) (workers s)) \<subseteq># mset (workers s)"
    by (simp add: multiset_filter_subset)
  then have "image_mset (result_of httpGet config)
        (mset (filter (\<lambda>w. phase w \<noteq> Fetching) (workers s))) \<subseteq>#
      image_mset (result_of httpGet config) (mset (workers s))"
    by (rule image_mset_subseteq_mono)
  with assms show ?thesis
    by (simp add: pool_inv_def)
qed

lemma results_complete:
  assumes inv: "pool_inv n httpGet config urls s" and c: "chan_closed s"
  shows "(\<forall>w \<in> set (workers s). phase w = Exited) \<and>
         mset (resultChan s) = mset (map (result_of httpGet config) (workers s))"
proof -
  from inv c have "length (filter (\<lambda>w. phase w \<noteq> Exited) (workers s)) = 0"
    by (auto simp: pool_inv_def split: if_splits)
  then have e: "\<forall>w \<in> set (workers s). phase w = Exited"
    by (simp add: filter_empty_conv)
  then have "filter (\<lambda>w. phase w \<noteq> Fetching) (workers s) = workers s"
    by (simp add: filter_id_conv)
  with inv e show ?thesis
    by (simp add: pool_inv_def)
qed

lemma worker_at:
  assumes "filter P ws \<noteq> []"
  shows "\<exists>k. k < length ws \<and> P (ws ! k)"
proof -
  from assms obtain w where "w \<in> set ws" "P w"
    by (auto simp: filter_empty_conv)
  then show ?thesis
    by (auto simp: in_set_conv_nth)
qed

lemma worker_can_step:
  assumes inv: "pool_inv n httpGet config urls s"
    and k: "k < length (workers s)" and alive: "phase (workers s ! k) \<noteq> Exited"
  shows "\<exists>e s'. e \<noteq> Signal \<and> step n httpGet config e s = Some s'"
proof (cases "phase (workers s ! k)")
  case Fetching
  with inv k have "\<exists>s'. step n httpGet config (Emit k) s = Some s'"
    by (simp add: pool_inv_def in_phase_def)
  then show ?thesis by blast
next
  case Sent
  with k have "workers s ! k \<in> set (filter holding (workers s))"
    by (simp add: holding_def)
  then have "0 < length (filter holding (workers s))"
    by (metis length_pos_if_in_set)
  with clients_partition [OF inv] have "length (clientsReady s) < n"
    by linarith
  with inv k Sent have "\<exists>s'. step n httpGet config (Put_back k) s = Some s'"
    by (simp add: pool_inv_def in_phase_def)
  then show ?thesis by blast
next
  case Returned
  with inv k have "\<exists>s'. step n httpGet config (Done k) s = Some s'"
    by (simp add: pool_inv_def in_phase_def)
  then show ?thesis by blast
next
  case Exited
  with alive show ?thesis by simp
qed

lemma pool_progress:
  assumes inv: "pool_inv n httpGet config urls s" and n: "1 \<le> n" and c: "\<not> chan_closed s"
  shows "\<exists>e s'. e \<noteq> Signal \<and> step n httpGet config e s = Some s'"
proof (cases "dispatcher s")
  case Finished
  with inv c show ?thesis by (simp add: pool_inv_def)
next
  case Waiting
  show ?thesis
  proof (cases "wg s = 0")
    case True
    with inv Waiting have "\<exists>s'. step n httpGet config Close s = Some s'"
      by (simp add: pool_inv_def)
    then show ?thesis by blast
  next
    case False
    with inv have "filter (\<lambda>w. phase w \<noteq> Exited) (workers s) \<noteq> []"
      by (auto simp: pool_inv_def)
    from worker_at [OF this] obtain k where "k < length (workers s)" "phase (workers s ! k) \<noteq> Exited"
      by blast
    then show ?thesis by (rule worker_can_step [OF inv])
  qed
next
  case Selecting
  show ?thesis
  proof (cases "urls_left s")
    case Nil
    with inv Selecting have "\<exists>s'. step n httpGet config Loop_end s = Some s'"
      by (simp add: pool_inv_def)
    then show ?thesis by blast
  next
    case (Cons u rest)
    show ?thesis
    proof (cases "clientsReady s")
      case (Cons c cs)
      with inv Selecting \<open>urls_left s = u # rest\<close>
      have "\<exists>s'. step n httpGet config Dispatch s = Some s'"
        by (simp add: pool_inv_def)
      then show ?thesis by blast
    next
      case Nil
      with clients_partition [OF inv] n have "filter holding (workers s) \<noteq> []"
        by auto
      from worker_at [OF this] obtain k where "k < length (workers s)" "holding (workers s ! k)"
        by blast
      then have "k < length (workers s)" "phase (workers s ! k) \<noteq> Exited"
        by (auto simp: holding_def)
      then show ?thesis by (rule worker_can_step [OF inv])
    qed
  qed
qed

section \<open>The worker pool: termination\<close>

lemma phase_steps_update:
  assumes k: "k < length ws" and less: "phase_steps ph < phase_steps (phase (ws ! k))"
  shows "sum_list (map (\<lambda>w. phase_steps (phase w)) (ws[k := (ws ! k)\<lparr>phase := ph\<rparr>])) <
         sum_list (map (\<lambda>w. phase_steps (phase w)) ws)"
proof -
  let ?f = "\<lambda>w. phase_steps (phase w)"
  have "map ?f (ws[k := (ws ! k)\<lparr>phase := ph\<rparr>]) = (map ?f ws)[k := phase_steps ph]"
    by (simp add: map_update)
  moreover have "sum_list ((map ?f ws)[k := phase_steps ph]) =
      sum_list (map ?f ws) + phase_steps ph - (map ?f ws) ! k"
    using k by (simp add: sum_list_update)
  moreover have "(map ?f ws) ! k \<le> sum_list (map ?f ws)"
    using k by (intro member_le_sum_list) simp_all
  ultimately show ?thesis
    using k less by simp
qed

lemma steps_left_decreases:
  assumes inv: "pool_inv n httpGet config urls s" and st: "step n httpGet config e s = Some s'"
  shows "steps_left s' < steps_left s"
proof -
  have p: "panicked s' = None"
    using pool_inv_step [OF inv st] by (simp add: pool_inv_def)
  show ?thesis
  proof (cases e)
    case Dispatch
    with st show ?thesis
      by (auto simp: steps_left_def split: if_splits list.splits)
  next
    case (Emit k)
    with st p have k: "k < length (workers s)" "phase (workers s ! k) = Fetching"
      and s': "workers s' = (workers s)[k := (workers s ! k)\<lparr>phase := Sent\<rparr>]"
        "urls_left s' = urls_left s" "dispatcher s' = dispatcher s" "quit_ready s' = quit_ready s"
      by (auto simp: in_phase_def set_phase_def split: if_splits)
    from phase_steps_update [OF k(1), of Sent] k(2) show ?thesis
      by (simp add: steps_left_def s')
  next
    case (Put_back k)
    with st p have k: "k < length (workers s)" "phase (workers s ! k) = Sent"
      and s': "workers s' = (workers s)[k := (workers s ! k)\<lparr>phase := Returned\<rparr>]"
        "urls_left s' = urls_left s" "dispatcher s' = dispatcher s" "quit_ready s' = quit_ready s"
      by (auto simp: in_phase_def set_phase_def split: if_splits)
    from phase_steps_update [OF k(1), of Returned] k(2) show ?thesis
      by (simp add: steps_left_def s')
  next
    case (Done k)
    with st p have k: "k < length (workers s)" "phase (workers s ! k) = Returned"
      and s': "workers s' = (workers s)[k := (workers s ! k)\<lparr>phase := Exited\<rparr>]"
        "urls_left s' = urls_left s" "dispatcher s' = dispatcher s" "quit_ready s' = quit_ready s"
      by (auto simp: in_phase_def set_phase_def split: if_splits)
    from phase_steps_update [OF k(1), of Exited] k(2) show ?thesis
      by (simp add: steps_left_def s')
  qed (use st in \<open>auto simp: steps_left_def split: if_splits\<close>)
qed

lemma run_bounded:
  "pool_inv n httpGet config urls s \<Longrightarrow> run n httpGet config es s = Some s' \<Longrightarrow>
     steps_left s' + length es \<le> steps_left s"
proof (induction es arbitrary: s)
  case Nil
  then show ?case by simp
next
  case (Cons e es)
  from Cons.prems(2) obtain s1 where
    1: "step n httpGet config e s = Some s1" and 2: "run n httpGet config es s1 = Some s'"
    by (auto split: option.splits)
  from Cons.IH [OF pool_inv_step [OF Cons.prems(1) 1] 2]
    steps_left_decreases [OF Cons.prems(1) 1]
  show ?case by simp
qed

text \<open>From every state that satisfies the invariant some schedule leads to the close of
  the result channel.\<close>

lemma can_close:
  assumes "pool_inv n httpGet config urls s" "1 \<le> n"
  shows "\<exists>es s'. run n httpGet config es s = Some s' \<and> chan_closed s'"
  using assms
proof (induction "steps_left s" arbitrary: s rule: less_induct)
  case less
  show ?case
  proof (cases "chan_closed s")
    case True
    then have "run n httpGet config [] s = Some s \<and> chan_closed s" by simp
    then show ?thesis by blast
  next
    case False
    from pool_progress [OF less.prems(1) less.prems(2) False] obtain e s1 where
      1: "step n httpGet config e s = Some s1"
      by blast
    from less.hyps [OF steps_left_decreases [OF less.prems(1) 1]
        pool_inv_step [OF less.prems(1) 1] less.prems(2)]
    obtain es s' where 2: "run n httpGet config es s1 = Some s'" "chan_closed s'"
      by blast
    from 1 2 have "run n httpGet config (e # es) s = Some s' \<and> chan_closed s'"
      by simp
    then show ?thesis by blast
  qed
qed

section \<open>Cancellation and drain (C7)\<close>

lemma Take_quit_leaves_loop:
  "step n httpGet config Take_quit s = Some s' \<Longrightarrow>
     quit_ready s \<and> dispatcher s' = Waiting \<and> workers s' = workers s"
  by (auto split: if_splits)

text \<open>
  C7 (amended). In every state a schedule of \<^verbatim>\<open>RunConcurrentGet\<close> reaches:
  \<^item> nothing has panicked, and the URLs dispatched so far are a prefix of the input list;
  \<^item> the quit branch of the \<^verbatim>\<open>select\<close> can be taken only when the signal has fired, and
    once the dispatcher has left its loop (by the quit branch or at the end of the list) no
    further URL is dispatched, whatever happens next;
  \<^item> the results sent are results of dispatched fetches, none twice;
  \<^item> when the result channel is closed every goroutine has exited and the results sent are
    exactly the results of the dispatched fetches, one each;
  \<^item> every continuation is bounded in length, a state with the channel open and a pool of
    at least one client has a step other than the signal, and some continuation closes the
    channel.
  A \<^verbatim>\<open>select\<close> whose two communications are both ready may take either, so a URL can
  still be dispatched after the signal has fired.
\<close>

theorem graceful_drain:
  assumes "run n httpGet config es (init_pool n urls q) = Some s"
  shows "panicked s = None \<and>
    map wurl (workers s) @ urls_left s = urls \<and>
    (\<forall>s'. step n httpGet config Take_quit s = Some s' \<longrightarrow>
       quit_ready s \<and> dispatcher s' = Waiting \<and> workers s' = workers s) \<and>
    (dispatcher s \<noteq> Selecting \<longrightarrow>
       (\<forall>es' s'. run n httpGet config es' s = Some s' \<longrightarrow>
          map wurl (workers s') = map wurl (workers s) \<and> urls_left s' = urls_left s)) \<and>
    mset (resultChan s) \<subseteq># mset (map (result_of httpGet config) (workers s)) \<and>
    (chan_closed s \<longrightarrow>
       (\<forall>w \<in> set (workers s). phase w = Exited) \<and>
       mset (resultChan s) = mset (map (result_of httpGet config) (workers s))) \<and>
    (\<forall>es' s'. run n httpGet config es' s = Some s' \<longrightarrow> length es' \<le> steps_left s) \<and>
    (1 \<le> n \<and> \<not> chan_closed s \<longrightarrow>
       (\<exists>e s'. e \<noteq> Signal \<and> step n httpGet config e s = Some s')) \<and>
    (1 \<le> n \<longrightarrow> (\<exists>es' s'. run n httpGet config es' s = Some s' \<and> chan_closed s'))"
proof -
  have inv: "pool_inv n httpGet config urls s"
    using pool_inv_run [OF pool_inv_init assms] .
  have 1: "panicked s = None" "map wurl (workers s) @ urls_left s = urls"
    using inv by (simp_all add: pool_inv_def)
  have 2: "\<forall>s'. step n httpGet config Take_quit s = Some s' \<longrightarrow>
       quit_ready s \<and> dispatcher s' = Waiting \<and> workers s' = workers s"
    using Take_quit_leaves_loop by blast
  have 3: "dispatcher s \<noteq> Selecting \<longrightarrow>
       (\<forall>es' s'. run n httpGet config es' s = Some s' \<longrightarrow>
          map wurl (workers s') = map wurl (workers s) \<and> urls_left s' = urls_left s)"
    using run_after_loop by blast
  have 4: "mset (resultChan s) \<subseteq># mset (map (result_of httpGet config) (workers s))"
    using inv by (rule results_subset)
  have 5: "chan_closed s \<longrightarrow>
       (\<forall>w \<in> set (workers s). phase w = Exited) \<and>
       mset (resultChan s) = mset (map (result_of httpGet config) (workers s))"
    using results_complete [OF inv] by blast
  have 6: "\<forall>es' s'. run n httpGet config es' s = Some s' \<longrightarrow> length es' \<le> steps_left s"
  proof (intro allI impI)
    fix es' s'
    assume "run n httpGet config es' s = Some s'"
    from run_bounded [OF inv this] show "length es' \<le> steps_left s" by simp
  qed
  have 7: "1 \<le> n \<and> \<not> chan_closed s \<longrightarrow>
       (\<exists>e s'. e \<noteq> Signal \<and> step n httpGet config e s = Some s')"
    using pool_progress [OF inv] by blast
  have 8: "1 \<le> n \<longrightarrow> (\<exists>es' s'. run n httpGet config es' s = Some s' \<and> chan_closed s')"
    using can_close [OF inv] by blast
  from 1 2 3 4 5 6 7 8 show ?thesis
    by (intro conjI)
qed

lemma sample_run:
  "run 1 sample_get sample_http_config sample_schedule (init_pool 1 [''a'', ''b'', ''c''] False) =
     Some sample_final"
  by (simp add: sample_schedule_def sample_final_def init_pool_def in_phase_def set_phase_def
      sample_get_def)

lemma sample_take_quit:
  "step 1 sample_get sample_http_config Take_quit sample_sent =
     Some (sample_sent\<lparr>dispatcher := Waiting\<rparr>)"
  by (simp add: sample_sent_def)

theorem graceful_drain_witness:
  "run 1 sample_get sample_http_config sample_schedule (init_pool 1 [''a'', ''b'', ''c''] False) =
     Some sample_final \<and>
   chan_closed sample_final \<and> dispatcher sample_final \<noteq> Selecting \<and> (1::nat) \<le> 1 \<and>
   panicked sample_final = None \<and>
   map wurl (workers sample_final) @ urls_left sample_final = [''a'', ''b'', ''c''] \<and>
   mset (resultChan sample_final) =
     mset (map (result_of sample_get sample_http_config) (workers sample_final)) \<and>
   (\<exists>es' s'. run 1 sample_get sample_http_config es' sample_final = Some s' \<and> chan_closed s') \<and>
   step 1 sample_get sample_http_config Take_quit sample_sent =
     Some (sample_sent\<lparr>dispatcher := Waiting\<rparr>) \<and>
   quit_ready sample_sent \<and> \<not> chan_closed sample_sent \<and>
   (\<exists>e s'. e \<noteq> Signal \<and> step 1 sample_get sample_http_config e sample_sent = Some s')"
proof -
  note T = graceful_drain [OF sample_run]
  note U = graceful_drain [OF sample_run_prefix]
  have c: "chan_closed sample_final" "dispatcher sample_final \<noteq> Selecting"
    by (simp_all add: sample_final_def)
  have o: "\<not> chan_closed sample_sent"
    by (simp add: sample_sent_def)
  from T c have 1: "panicked sample_final = None"
    "map wurl (workers sample_final) @ urls_left sample_final = [''a'', ''b'', ''c'']"
    "mset (resultChan sample_final) =
       mset (map (result_of sample_get sample_http_config) (workers sample_final))"
    "\<exists>es' s'. run 1 sample_get sample_http_config es' sample_final = Some s' \<and> chan_closed s'"
    by simp_all
  from U sample_take_quit have 2: "quit_ready sample_sent"
    by blast
  from U o have 3:
    "\<exists>e s'. e \<noteq> Signal \<and> step 1 sample_get sample_http_config e sample_sent = Some s'"
    by simp
  from sample_run c 1 sample_take_quit 2 o 3 show ?thesis
    by simp
qed

text \<open>As stated, C7 fails: the signal has fired while the URLs \<^verbatim>\<open>b\<close> and \<^verbatim>\<open>c\<close> are still
  to be dispatched and a client is ready; the \<^verbatim>\<open>select\<close> may take the client, and \<^verbatim>\<open>b\<close> is
  dispatched after the signal.\<close>

theorem dispatch_after_signal_counterexample:
  "map_option quit_ready
     (run 2 sample_get sample_http_config [Dispatch, Signal]
        (init_pool 2 [''a'', ''b'', ''c''] False)) = Some True \<and>
   map_option (map wurl \<circ> workers)
     (run 2 sample_get sample_http_config [Dispatch, Signal]
        (init_pool 2 [''a'', ''b'', ''c''] False)) = Some [''a''] \<and>
   map_option urls_left
     (run 2 sample_get sample_http_config [Dispatch, Signal]
        (init_pool 2 [''a'', ''b'', ''c''] False)) = Some [''b'', ''c''] \<and>
   map_option (map wurl \<circ> workers)
     (run 2 sample_get sample_http_config [Dispatch, Signal, Dispatch]
        (init_pool 2 [''a'', ''b'', ''c''] False)) = Some [''a'', ''b'']"
  by code_simp

section \<open>Outcome classification (C4)\<close>





end
